theory Spec2Isabelle
  imports Main "HOL-Library.Multiset"
begin

section \<open>Python values used by \<open>scrambler.py\<close>\<close>

text \<open>
  Exceptions are values. Every exception carries the text that \<open>str(e)\<close> yields, since
  \<open>get_scramble\<close> formats that text into its result. \<open>OtherException\<close> stands for any
  other subclass of \<open>Exception\<close> (its class name, its text). Python has exceptions that
  are not subclasses of \<open>Exception\<close>: \<open>KeyboardInterrupt\<close>, \<open>SystemExit\<close> and whatever
  else derives from \<open>BaseException\<close> only (\<open>OtherBaseException\<close>: its class name, its
  text). The solver may raise any of them.
\<close>

datatype py_exception =
    IndexError string
  | ValueError string
  | OtherException string string
  | KeyboardInterrupt string
  | SystemExit string
  | OtherBaseException string string

fun exc_str :: "py_exception \<Rightarrow> string" where
  "exc_str (IndexError m) = m"
| "exc_str (ValueError m) = m"
| "exc_str (OtherException c m) = m"
| "exc_str (KeyboardInterrupt m) = m"
| "exc_str (SystemExit m) = m"
| "exc_str (OtherBaseException c m) = m"

text \<open>\<open>isinstance(e, Exception)\<close>: what a clause \<open>except Exception\<close> catches.\<close>

fun isinstance_Exception :: "py_exception \<Rightarrow> bool" where
  "isinstance_Exception (IndexError m) = True"
| "isinstance_Exception (ValueError m) = True"
| "isinstance_Exception (OtherException c m) = True"
| "isinstance_Exception (KeyboardInterrupt m) = False"
| "isinstance_Exception (SystemExit m) = False"
| "isinstance_Exception (OtherBaseException c m) = False"

text \<open>
  Python list indexing with an \<open>int\<close>: an index in \<open>[0, n)\<close> is itself, an index in
  \<open>[-n, 0)\<close> counts from the end, anything else raises \<open>IndexError\<close> (\<open>None\<close> here).
\<close>

definition py_index :: "nat \<Rightarrow> int \<Rightarrow> nat option" where
  "py_index n j =
     (if 0 \<le> j \<and> j < int n then Some (nat j)
      else if - int n \<le> j \<and> j < 0 then Some (nat (int n + j))
      else None)"

definition index_error :: py_exception where
  "index_error = IndexError ''list index out of range''"

section \<open>\<open>get_permutation_parity\<close>\<close>

text \<open>
  The inner loop \<open>while not visited[j]: visited[j] = True; j = perm[j]\<close>.
  The state is the list \<open>visited\<close> together with a ghost counter \<open>marks\<close> of the
  assignments \<open>visited[j] = True\<close> executed so far; the counter is not a variable of
  the source and no result depends on it.
\<close>

function follow_cycle ::
  "int list \<Rightarrow> bool list \<times> nat \<Rightarrow> int \<Rightarrow> py_exception + (bool list \<times> nat)" where
  "follow_cycle perm (visited, marks) j =
     (case py_index (length visited) j of
        None \<Rightarrow> Inl index_error
      | Some a \<Rightarrow>
          if visited ! a then Inr (visited, marks)
          else (case py_index (length perm) j of
                  None \<Rightarrow> Inl index_error
                | Some b \<Rightarrow> follow_cycle perm (visited[a := True], Suc marks) (perm ! b)))"
  by pat_completeness auto

lemma py_index_less: "py_index n j = Some a \<Longrightarrow> a < n"
  by (auto simp: py_index_def split: if_splits)

lemma unvisited_decreases:
  "a < length vs \<Longrightarrow> \<not> vs ! a \<Longrightarrow>
   length (filter Not (vs[a := True])) < length (filter Not vs)"
proof (induction vs arbitrary: a)
  case Nil
  then show ?case by simp
next
  case (Cons v vs)
  show ?case
  proof (cases a)
    case 0
    with Cons.prems show ?thesis by simp
  next
    case (Suc a')
    with Cons.prems have "length (filter Not (vs[a' := True])) < length (filter Not vs)"
      by (intro Cons.IH) simp_all
    with Suc show ?thesis by simp
  qed
qed

termination follow_cycle
proof (relation "measure (\<lambda>(perm, (visited, marks), j). length (filter Not visited))")
  show "wf (measure (\<lambda>(perm, (visited, marks), j). length (filter Not visited)))"
    by simp
next
  fix perm :: "int list" and visited :: "bool list" and marks :: nat and j :: int and a b :: nat
  assume "py_index (length visited) j = Some a" and "\<not> visited ! a"
  then show "((perm, (visited[a := True], Suc marks), perm ! b), (perm, (visited, marks), j))
      \<in> measure (\<lambda>(perm, (visited, marks), j). length (filter Not visited))"
    using unvisited_decreases [of a visited] py_index_less [of "length visited" j a] by simp
qed

text \<open>
  The outer loop \<open>for i in range(n)\<close>, over the list of indices still to come. The state
  adds the variable \<open>cycles\<close>.
\<close>

fun parity_loop ::
  "int list \<Rightarrow> nat list \<Rightarrow> (bool list \<times> nat) \<times> int \<Rightarrow>
   py_exception + ((bool list \<times> nat) \<times> int)" where
  "parity_loop perm [] st = Inr st"
| "parity_loop perm (i # is) ((visited, marks), cycles) =
     (if \<not> visited ! i then
        (case follow_cycle perm (visited, marks) (int i) of
           Inl e \<Rightarrow> Inl e
         | Inr vm \<Rightarrow> parity_loop perm is (vm, cycles + 1))
      else parity_loop perm is ((visited, marks), cycles))"

definition parity_run :: "int list \<Rightarrow> py_exception + ((bool list \<times> nat) \<times> int)" where
  "parity_run perm =
     (let n = length perm in parity_loop perm [0..<n] ((replicate n False, 0), 0))"

definition get_permutation_parity :: "int list \<Rightarrow> py_exception + int" where
  "get_permutation_parity perm =
     (case parity_run perm of
        Inl e \<Rightarrow> Inl e
      | Inr ((visited, marks), cycles) \<Rightarrow> Inr ((int (length perm) - cycles) mod 2))"

text \<open>The assignments \<open>visited[j] = True\<close> that a whole call executes (ghost).\<close>

definition marking_steps :: "int list \<Rightarrow> nat option" where
  "marking_steps perm =
     (case parity_run perm of
        Inl e \<Rightarrow> None
      | Inr ((visited, marks), cycles) \<Rightarrow> Some marks)"

text \<open>The precondition of C10: every entry of the list lies in \<open>[0, n)\<close>.\<close>

definition valid_entries :: "int list \<Rightarrow> bool" where
  "valid_entries perm = list_all (\<lambda>x. 0 \<le> x \<and> x < int (length perm)) perm"

text \<open>A permutation of \<open>[0, n)\<close> as a list: in range, and no entry twice.\<close>

definition is_permutation :: "int list \<Rightarrow> bool" where
  "is_permutation perm = (valid_entries perm \<and> distinct perm)"

text \<open>The map \<open>j \<mapsto> perm[j]\<close> on indices.\<close>

definition pfun :: "int list \<Rightarrow> nat \<Rightarrow> nat" where
  "pfun perm j = nat (perm ! j)"

text \<open>The indices marked in \<open>visited\<close>.\<close>

definition Vset :: "bool list \<Rightarrow> nat set" where
  "Vset visited = {a. a < length visited \<and> visited ! a}"

subsection \<open>The inner loop\<close>

lemma py_index_nat: "j < n \<Longrightarrow> py_index n (int j) = Some j"
  by (simp add: py_index_def)

lemma finite_Vset: "finite (Vset vs)"
  by (simp add: Vset_def)

lemma Vset_bound: "Vset vs \<subseteq> {..<length vs}"
  by (auto simp: Vset_def)

lemma Vset_update: "a < length vs \<Longrightarrow> Vset (vs[a := True]) = insert a (Vset vs)"
  by (auto simp: Vset_def nth_list_update)

lemma Vset_replicate: "Vset (replicate n False) = {}"
  by (auto simp: Vset_def)

lemma valid_entries_nth:
  "valid_entries perm \<Longrightarrow> j < length perm \<Longrightarrow> 0 \<le> perm ! j \<and> perm ! j < int (length perm)"
  by (simp add: valid_entries_def list_all_length)

lemma pfun_less: "valid_entries perm \<Longrightarrow> j < length perm \<Longrightarrow> pfun perm j < length perm"
  using valid_entries_nth [of perm j] by (auto simp: pfun_def)

lemma pfun_nth: "valid_entries perm \<Longrightarrow> j < length perm \<Longrightarrow> perm ! j = int (pfun perm j)"
  using valid_entries_nth [of perm j] by (simp add: pfun_def)

lemma follow_cycle_result:
  assumes "valid_entries perm" and "length visited = length perm" and "j < length perm"
    and "marks = card (Vset visited)"
  shows "\<exists>v' K. follow_cycle perm (visited, marks) (int j) = Inr (v', card (Vset v'))
           \<and> length v' = length perm
           \<and> Vset v' = Vset visited \<union> (\<lambda>m. (pfun perm ^^ m) j) ` {..<K}
           \<and> (pfun perm ^^ K) j \<in> Vset v'"
  using assms
proof (induction "length (filter Not visited)" arbitrary: visited marks j rule: less_induct)
  case less
  show ?case
  proof (cases "visited ! j")
    case True
    with less.prems have "follow_cycle perm (visited, marks) (int j) = Inr (visited, card (Vset visited))"
      by (simp add: py_index_nat)
    moreover from True less.prems have "(pfun perm ^^ 0) j \<in> Vset visited"
      by (simp add: Vset_def)
    ultimately show ?thesis
      using less.prems(2) by (intro exI [of _ visited] exI [of _ 0]) simp
  next
    case False
    let ?v = "visited[j := True]"
    let ?j = "pfun perm j"
    have jlt: "?j < length perm" using less.prems by (simp add: pfun_less)
    have dec: "length (filter Not ?v) < length (filter Not visited)"
      using False less.prems by (simp add: unvisited_decreases)
    have jnot: "j \<notin> Vset visited" using False by (simp add: Vset_def)
    have card': "Suc marks = card (Vset ?v)"
      using less.prems jnot by (simp add: Vset_update finite_Vset)
    from less.hyps [OF dec less.prems(1) _ jlt card'] less.prems(2)
    obtain v' K where r: "follow_cycle perm (?v, Suc marks) (int ?j) = Inr (v', card (Vset v'))"
      and len: "length v' = length perm"
      and vs: "Vset v' = Vset ?v \<union> (\<lambda>m. (pfun perm ^^ m) ?j) ` {..<K}"
      and mem: "(pfun perm ^^ K) ?j \<in> Vset v'"
      by auto
    have step: "follow_cycle perm (visited, marks) (int j) = follow_cycle perm (?v, Suc marks) (int ?j)"
      using False less.prems by (simp add: py_index_nat pfun_nth)
    have "(\<lambda>m. (pfun perm ^^ m) j) ` {..<Suc K} = insert j ((\<lambda>m. (pfun perm ^^ m) ?j) ` {..<K})"
      by (simp add: lessThan_Suc_eq_insert_0 image_image funpow_Suc_right del: funpow.simps)
    then have "Vset v' = Vset visited \<union> (\<lambda>m. (pfun perm ^^ m) j) ` {..<Suc K}"
      using vs less.prems by (simp add: Vset_update)
    moreover have "(pfun perm ^^ Suc K) j \<in> Vset v'"
      using mem by (simp add: funpow_swap1)
    ultimately show ?thesis
      using r len step by (intro exI [of _ v'] exI [of _ "Suc K"]) simp
  qed
qed

subsection \<open>Totality on lists with entries in range\<close>

lemma parity_loop_result:
  assumes "valid_entries perm" and "length visited = length perm"
    and "\<forall>i\<in>set is. i < length perm" and "marks = card (Vset visited)"
  shows "\<exists>v' c'. parity_loop perm is ((visited, marks), c) = Inr ((v', card (Vset v')), c')
           \<and> length v' = length perm \<and> c \<le> c' \<and> c' \<le> c + int (length is)"
  using assms
proof (induction "is" arbitrary: visited marks c)
  case Nil
  then show ?case by simp
next
  case (Cons i "is")
  show ?case
  proof (cases "visited ! i")
    case True
    from Cons.IH [of visited marks c] Cons.prems
    obtain v' c' where "parity_loop perm is ((visited, marks), c) = Inr ((v', card (Vset v')), c')"
      and "length v' = length perm" and "c \<le> c'" and "c' \<le> c + int (length is)"
      by auto
    with True show ?thesis by simp
  next
    case False
    from follow_cycle_result [of perm visited i marks] Cons.prems
    obtain v1 where f: "follow_cycle perm (visited, marks) (int i) = Inr (v1, card (Vset v1))"
      and l1: "length v1 = length perm"
      by auto
    from Cons.IH [of v1 "card (Vset v1)" "c + 1"] Cons.prems l1
    obtain v' c' where "parity_loop perm is ((v1, card (Vset v1)), c + 1) = Inr ((v', card (Vset v')), c')"
      and "length v' = length perm" and "c + 1 \<le> c'" and "c' \<le> c + 1 + int (length is)"
      by auto
    with False f show ?thesis by simp
  qed
qed

text \<open>
  C10. On a list whose entries all lie in \<open>[0, n)\<close> (a bijection or not)
  \<open>get_permutation_parity\<close> returns, and returns 0 or 1. Every iteration of the inner
  loop marks an index that was unmarked, so the number of marking steps of the whole call
  is the number of indices marked at the end, which is at most \<open>n\<close>. (That the loops
  end on every input at all is the termination proof of \<open>follow_cycle\<close>.)
\<close>

theorem parity_total:
  assumes "valid_entries perm"
  shows "\<exists>v m c. parity_run perm = Inr ((v, m), c)
           \<and> m = card (Vset v) \<and> m \<le> length perm
           \<and> marking_steps perm = Some m
           \<and> get_permutation_parity perm = Inr ((int (length perm) - c) mod 2)
           \<and> (int (length perm) - c) mod 2 \<in> {0, 1}"
proof -
  from parity_loop_result [of perm "replicate (length perm) False" "[0..<length perm]" 0 0] assms
  obtain v c where r: "parity_run perm = Inr ((v, card (Vset v)), c)"
    and len: "length v = length perm"
    by (auto simp: parity_run_def Vset_replicate)
  have "card (Vset v) \<le> card {..<length v}"
    by (intro card_mono Vset_bound) simp
  with len have "card (Vset v) \<le> length perm" by simp
  moreover have "(int (length perm) - c) mod 2 \<in> {0, 1}" by auto
  ultimately show ?thesis
    using r by (simp add: marking_steps_def get_permutation_parity_def)
qed

theorem parity_total_witness:
  "valid_entries [0, 0] \<and> get_permutation_parity [0, 0] = Inr 0 \<and> marking_steps [0, 0] = Some 2"
proof -
  have v: "valid_entries [0, 0]"
    by (simp add: valid_entries_def)
  have e: "get_permutation_parity [0, 0] = Inr 0 \<and> marking_steps [0, 0] = Some 2"
    by (simp add: get_permutation_parity_def marking_steps_def parity_run_def py_index_def)
  from parity_total [OF v] v e show ?thesis by blast
qed

section \<open>The move inverter: \<open>invert_move\<close> and \<open>invert_solution\<close>\<close>

text \<open>
  A Python \<open>str\<close> is a \<open>string\<close>; a \<open>char\<close> stands for a code point below 256. The
  apostrophe of a prime move is \<open>CHR 0x27\<close>.
\<close>

definition prime :: char where
  "prime = CHR 0x27"

text \<open>\<open>s.endswith(suf)\<close>\<close>

definition endswith :: "string \<Rightarrow> string \<Rightarrow> bool" where
  "endswith s suf = (length suf \<le> length s \<and> drop (length s - length suf) s = suf)"

definition invert_move :: "string \<Rightarrow> string" where
  "invert_move move =
     (if endswith move [prime] then butlast move
      else if endswith move ''2'' then move
      else move @ [prime])"

text \<open>
  \<open>str.isspace\<close> on the code points below 256: tab, line feed, vertical tab, form feed,
  carriage return, the separators \<open>0x1c\<close> to \<open>0x1f\<close>, space, \<open>0x85\<close> and \<open>0xa0\<close>.
\<close>

definition is_space :: "char \<Rightarrow> bool" where
  "is_space c = (c \<in> set [CHR 0x09, CHR 0x0A, CHR 0x0B, CHR 0x0C, CHR 0x0D,
                           CHR 0x1C, CHR 0x1D, CHR 0x1E, CHR 0x1F, CHR 0x20, CHR 0x85, CHR 0xA0])"

text \<open>
  \<open>solution.split()\<close>: the maximal runs of characters that are not whitespace, in order.
  \<open>split_acc cur s\<close> scans \<open>s\<close> with the run read so far in \<open>cur\<close>.
\<close>

fun split_acc :: "string \<Rightarrow> string \<Rightarrow> string list" where
  "split_acc cur [] = (if cur = [] then [] else [cur])"
| "split_acc cur (c # cs) =
     (if is_space c then (if cur = [] then split_acc [] cs else cur # split_acc [] cs)
      else split_acc (cur @ [c]) cs)"

definition split :: "string \<Rightarrow> string list" where
  "split s = split_acc [] s"

text \<open>\<open>sep.join(xs)\<close>\<close>

fun join :: "string \<Rightarrow> string list \<Rightarrow> string" where
  "join sep [] = []"
| "join sep [x] = x"
| "join sep (x # y # ys) = x @ sep @ join sep (y # ys)"

text \<open>
  The comprehension \<open>[invert_move(m) for m in reversed(moves)]\<close> of \<open>invert_solution\<close>,
  which the specification calls \<open>invert_sequence\<close>.
\<close>

definition invert_sequence :: "string list \<Rightarrow> string list" where
  "invert_sequence moves = map invert_move (rev moves)"

definition invert_solution :: "string \<Rightarrow> string" where
  "invert_solution solution =
     (if solution = [] then []
      else join '' '' (invert_sequence (split solution)))"

text \<open>
  A move token of the grammar \<open><FACE>[<MODIFIER>]\<close>: one of the six face symbols, then
  nothing, an apostrophe or \<open>2\<close>.
\<close>

definition face_symbols :: string where
  "face_symbols = ''URFDLB''"

definition is_move :: "string \<Rightarrow> bool" where
  "is_move m =
     (case m of
        [f] \<Rightarrow> f \<in> set face_symbols
      | [f, c] \<Rightarrow> f \<in> set face_symbols \<and> (c = prime \<or> c = CHR ''2'')
      | _ \<Rightarrow> False)"


subsection \<open>Inverting twice\<close>

lemma is_move_cases:
  "is_move m \<longleftrightarrow> (\<exists>f \<in> set face_symbols. m = [f] \<or> m = [f, prime] \<or> m = [f, CHR ''2''])"
  by (auto simp: is_move_def split: list.splits)

lemma face_not_modifier: "f \<in> set face_symbols \<Longrightarrow> f \<noteq> prime \<and> f \<noteq> CHR ''2'' \<and> \<not> is_space f"
  by (auto simp: face_symbols_def prime_def is_space_def)

lemma invert_move_move: "is_move m \<Longrightarrow> is_move (invert_move m)"
  by (auto simp: is_move_cases invert_move_def endswith_def dest: face_not_modifier)

lemma invert_move_twice: "is_move m \<Longrightarrow> invert_move (invert_move m) = m"
  by (auto simp: is_move_cases invert_move_def endswith_def prime_def dest: face_not_modifier)

lemma invert_sequence_moves: "list_all is_move S \<Longrightarrow> list_all is_move (invert_sequence S)"
  by (simp add: invert_sequence_def list_all_iff invert_move_move)

lemma invert_sequence_twice: "list_all is_move S \<Longrightarrow> invert_sequence (invert_sequence S) = S"
  by (simp add: invert_sequence_def rev_map list_all_iff invert_move_twice map_idI)

lemma split_acc_run:
  "\<forall>c \<in> set t. \<not> is_space c \<Longrightarrow> split_acc cur (t @ rest) = split_acc (cur @ t) rest"
  by (induction t arbitrary: cur) simp_all

lemma is_move_token: "is_move m \<Longrightarrow> m \<noteq> [] \<and> (\<forall>c \<in> set m. \<not> is_space c)"
  by (auto simp: is_move_cases prime_def is_space_def dest: face_not_modifier)

lemma split_join:
  "list_all is_move S \<Longrightarrow> split (join '' '' S) = S"
  unfolding split_def
proof (induction "'' ''" S rule: join.induct)
  case 1
  show ?case by simp
next
  case (2 x)
  then have "x \<noteq> []" and "\<forall>c \<in> set x. \<not> is_space c"
    using is_move_token [of x] by simp_all
  then show ?case
    using split_acc_run [of x "[]" "[]"] by simp
next
  case (3 x y ys)
  then have x: "x \<noteq> []" "\<forall>c \<in> set x. \<not> is_space c"
    using is_move_token [of x] by simp_all
  from 3 have "split_acc [] (join '' '' (y # ys)) = y # ys" by simp
  with x show ?case
    using split_acc_run [of x "[]" "'' '' @ join '' '' (y # ys)"]
    by (simp add: is_space_def)
qed

lemma join_empty: "list_all is_move S \<Longrightarrow> join '' '' S = [] \<longleftrightarrow> S = []"
proof (cases S)
  case Nil
  then show ?thesis by simp
next
  case (Cons x xs)
  assume "list_all is_move S"
  with Cons have "x \<noteq> []" using is_move_token [of x] by simp
  with Cons show ?thesis by (cases xs) simp_all
qed

lemma invert_solution_join:
  assumes "list_all is_move S"
  shows "invert_solution (join '' '' S) = join '' '' (invert_sequence S)"
proof (cases "S = []")
  case True
  then show ?thesis by (simp add: invert_solution_def invert_sequence_def)
next
  case False
  with assms show ?thesis
    by (simp add: invert_solution_def join_empty split_join)
qed

text \<open>
  C6. Inverting a sequence of moves twice gives the sequence back: each move inverts
  to a move and back to itself, and reversing twice restores the order. The same holds
  for \<open>invert_solution\<close> on the serialization of the sequence (its tokens joined by
  single spaces).
\<close>

theorem invert_sequence_involution:
  assumes "list_all is_move S"
  shows "invert_sequence (invert_sequence S) = S
       \<and> list_all (\<lambda>m. invert_move (invert_move m) = m) S
       \<and> invert_solution (invert_solution (join '' '' S)) = join '' '' S"
proof -
  have "invert_solution (invert_solution (join '' '' S)) = join '' '' (invert_sequence (invert_sequence S))"
    using assms by (simp add: invert_solution_join invert_sequence_moves)
  then show ?thesis
    using assms by (simp add: invert_sequence_twice list_all_iff invert_move_twice)
qed

theorem invert_sequence_involution_witness:
  "list_all is_move [''R'', ''U2'', ''F'' @ [prime]]
   \<and> invert_sequence (invert_sequence [''R'', ''U2'', ''F'' @ [prime]]) = [''R'', ''U2'', ''F'' @ [prime]]
   \<and> invert_sequence [''R'', ''U2'', ''F'' @ [prime]] = [''F'', ''U2'', ''R'' @ [prime]]"
proof -
  have m: "list_all is_move [''R'', ''U2'', ''F'' @ [prime]]"
    by (simp add: is_move_def face_symbols_def)
  have e: "invert_sequence [''R'', ''U2'', ''F'' @ [prime]] = [''F'', ''U2'', ''R'' @ [prime]]"
    by (simp add: invert_sequence_def invert_move_def endswith_def prime_def)
  from invert_sequence_involution [OF m] m e show ?thesis by simp
qed

text \<open>
  C8. The two fixed inputs of the specification: \<open>["R", "U", "R'"]\<close> inverts to
  \<open>["R", "U'", "R'"]\<close>, and the empty sequence inverts to the empty sequence, whose
  serialization is the empty string. \<open>invert_solution\<close> does the same on the strings.
\<close>

theorem invert_sequence_examples:
  "invert_sequence [''R'', ''U'', ''R'' @ [prime]] = [''R'', ''U'' @ [prime], ''R'' @ [prime]]
   \<and> invert_sequence [] = []
   \<and> join '' '' (invert_sequence []) = ''''
   \<and> invert_solution (''R U R'' @ [prime]) = ''R U'' @ [prime] @ '' R'' @ [prime]
   \<and> invert_solution '''' = ''''"
  by (simp add: invert_sequence_def invert_move_def endswith_def prime_def invert_solution_def
      split_def is_space_def)

section \<open>\<open>generate_random_state_string\<close>\<close>

subsection \<open>The random draws\<close>

text \<open>
  The function takes no argument; what it returns depends on the values the module
  \<open>random\<close> hands out. They are the input of the model, in the order of the calls:
  the list \<open>cp\<close> after \<open>random.shuffle(cp)\<close>, the list \<open>ep\<close> after \<open>random.shuffle(ep)\<close>,
  the seven values \<open>random.randint(0, 2)\<close> and the eleven values \<open>random.randint(0, 1)\<close>.
\<close>

record draws =
  shuffled_cp :: "int list"
  shuffled_ep :: "int list"
  randint_co :: "int list"
  randint_eo :: "int list"

text \<open>
  What \<open>random\<close> guarantees: \<open>shuffle\<close> rearranges \<open>list(range(8))\<close> and
  \<open>list(range(12))\<close>, and \<open>randint(a, b)\<close> lies in \<open>[a, b]\<close>.
\<close>

definition valid_draws :: "draws \<Rightarrow> bool" where
  "valid_draws d =
     (length (shuffled_cp d) = 8 \<and> is_permutation (shuffled_cp d)
    \<and> length (shuffled_ep d) = 12 \<and> is_permutation (shuffled_ep d)
    \<and> length (randint_co d) = 7 \<and> list_all (\<lambda>v. 0 \<le> v \<and> v \<le> 2) (randint_co d)
    \<and> length (randint_eo d) = 11 \<and> list_all (\<lambda>v. 0 \<le> v \<and> v \<le> 1) (randint_eo d))"

subsection \<open>The cube state (lines 59 to 75)\<close>

record cube_state =
  cp :: "int list"
  co :: "int list"
  ep :: "int list"
  eo :: "int list"

text \<open>\<open>ep[0], ep[1] = ep[1], ep[0]\<close>\<close>

definition swap_first_two :: "int list \<Rightarrow> int list" where
  "swap_first_two xs = xs[0 := xs ! 1, 1 := xs ! 0]"

definition generate_state :: "draws \<Rightarrow> py_exception + cube_state" where
  "generate_state d =
     (let cp = shuffled_cp d;
          ep = shuffled_ep d;
          co = randint_co d @ [(3 - (sum_list (randint_co d) mod 3)) mod 3];
          eo = randint_eo d @ [(2 - (sum_list (randint_eo d) mod 2)) mod 2]
      in case get_permutation_parity cp of
           Inl e \<Rightarrow> Inl e
         | Inr parity_cp \<Rightarrow>
             (case get_permutation_parity ep of
                Inl e \<Rightarrow> Inl e
              | Inr parity_ep \<Rightarrow>
                  Inr \<lparr>cp = cp, co = co,
                       ep = (if parity_cp \<noteq> parity_ep then swap_first_two ep else ep),
                       eo = eo\<rparr>))"

subsection \<open>The encoder (lines 29 to 57 and 77 to 121)\<close>

definition solved_chars :: string where
  "solved_chars = ''UUUUUUUUURRRRRRRRRFFFFFFFFFDDDDDDDDDLLLLLLLLLBBBBBBBBB''"

definition corner_stickers :: "nat list list" where
  "corner_stickers =
     [[8, 9, 20], [6, 18, 38], [0, 36, 47], [2, 45, 11],
      [29, 26, 15], [27, 44, 24], [33, 53, 42], [35, 17, 51]]"

definition edge_stickers :: "nat list list" where
  "edge_stickers =
     [[7, 19], [5, 10], [1, 46], [3, 37], [23, 12], [21, 41],
      [48, 14], [50, 39], [28, 25], [32, 16], [34, 52], [30, 43]]"

definition center_indices :: "nat list" where
  "center_indices = [4, 13, 22, 31, 40, 49]"

text \<open>
  An assignment \<open>facelets[target_facelet_idx] = original_char\<close> is a pair of the index
  and the one-character string. The two loops and the center fill are the lists of their
  assignments in program order; \<open>store\<close> executes such a list on \<open>facelets\<close>.

  \<open>piece_writes stickers k_max perm ori i\<close> is the body of either piece loop for the
  piece \<open>i\<close>: the inner loop over \<open>k\<close> in \<open>range(k_max)\<close>. The lists are read with indices
  that are in range for every state \<open>generate_state\<close> returns on valid draws. What
  Python does with other indices (\<open>IndexError\<close> past the end of a list, counting from
  the end for a negative index) is not part of \<open>piece_writes\<close>.
\<close>

type_synonym assignment = "nat \<times> string"

definition piece_writes ::
  "nat list list \<Rightarrow> nat \<Rightarrow> int list \<Rightarrow> int list \<Rightarrow> nat \<Rightarrow> assignment list" where
  "piece_writes stickers k_max perm ori i =
     (let target_piece_idx = nat (perm ! i);
          orientation = ori ! i;
          original_sticker_indices = stickers ! i;
          target_facelet_positions = stickers ! target_piece_idx
      in map (\<lambda>k. (target_facelet_positions ! nat ((int k + orientation) mod int k_max),
                    [solved_chars ! (original_sticker_indices ! k)]))
           [0..<k_max])"

definition corner_writes :: "cube_state \<Rightarrow> assignment list" where
  "corner_writes s = concat (map (piece_writes corner_stickers 3 (cp s) (co s)) [0..<8])"

definition edge_writes :: "cube_state \<Rightarrow> assignment list" where
  "edge_writes s = concat (map (piece_writes edge_stickers 2 (ep s) (eo s)) [0..<12])"

definition center_writes :: "assignment list" where
  "center_writes = map (\<lambda>idx. (idx, [solved_chars ! idx])) center_indices"

definition all_writes :: "cube_state \<Rightarrow> assignment list" where
  "all_writes s = corner_writes s @ edge_writes s @ center_writes"

definition store :: "assignment list \<Rightarrow> string list \<Rightarrow> string list" where
  "store ws facelets = fold (\<lambda>(idx, c) f. f[idx := c]) ws facelets"

definition facelets_of :: "cube_state \<Rightarrow> string list" where
  "facelets_of s = store (all_writes s) (replicate 54 '''')"

text \<open>\<open>str(n)\<close> for \<open>n \<ge> 0\<close> and the \<open>repr\<close> of a list of such numbers.\<close>

fun str_nat :: "nat \<Rightarrow> string" where
  "str_nat n = (if n < 10 then [''0123456789'' ! n]
                else str_nat (n div 10) @ [''0123456789'' ! (n mod 10)])"

definition repr_list :: "nat list \<Rightarrow> string" where
  "repr_list xs = ''['' @ join '', '' (map str_nat xs) @ '']''"

text \<open>
  The check \<open>if "" in facelets\<close> with its \<open>ValueError\<close>, and \<open>"".join(facelets)\<close>.
\<close>

definition missing_indices :: "string list \<Rightarrow> nat list" where
  "missing_indices facelets = filter (\<lambda>i. facelets ! i = '''') [0..<length facelets]"

definition missing_message :: "string list \<Rightarrow> string" where
  "missing_message facelets =
     ''Generated facelet string has missing values at indices: ''
       @ repr_list (missing_indices facelets)"

definition encode_state :: "cube_state \<Rightarrow> py_exception + string" where
  "encode_state s =
     (let facelets = facelets_of s
      in if '''' \<in> set facelets then Inl (ValueError (missing_message facelets))
         else Inr (concat facelets))"

definition generate_random_state_string :: "draws \<Rightarrow> py_exception + string" where
  "generate_random_state_string d =
     (case generate_state d of
        Inl e \<Rightarrow> Inl e
      | Inr s \<Rightarrow> encode_state s)"

subsection \<open>The piece loops write each sticker position once\<close>

lemma mset_concat_map_cong:
  "mset xs = mset ys \<Longrightarrow> mset (concat (map f xs)) = mset (concat (map f ys))"
proof -
  assume eq: "mset xs = mset ys"
  have "mset (concat (map f zs)) = sum_mset (image_mset (\<lambda>z. mset (f z)) (mset zs))" for zs
    by (induction zs) simp_all
  with eq show ?thesis by simp
qed

lemma upt_three: "[0..<3] = [0, 1, 2]"
  by (simp add: numeral_3_eq_3)

lemma upt_two: "[0..<2] = [0, 1]"
  by (simp add: numeral_2_eq_2)

lemma rotate_three:
  assumes "length row = 3"
  shows "mset (map (\<lambda>k. row ! nat ((int k + orientation) mod 3)) [0..<3]) = mset row"
proof -
  obtain a b c where row: "row = [a, b, c]"
    using assms by (auto simp: length_Suc_conv numeral_3_eq_3)
  define r where "r = orientation mod 3"
  have f: "(\<lambda>k. row ! nat ((int k + orientation) mod 3)) = (\<lambda>k. row ! nat ((int k + r) mod 3))"
    by (simp add: r_def mod_add_right_eq)
  have "r = 0 \<or> r = 1 \<or> r = 2"
    unfolding r_def by presburger
  then show ?thesis
    unfolding f upt_three by (auto simp: row)
qed

lemma rotate_two:
  assumes "length row = 2"
  shows "mset (map (\<lambda>k. row ! nat ((int k + orientation) mod 2)) [0..<2]) = mset row"
proof -
  obtain a b where row: "row = [a, b]"
    using assms by (auto simp: length_Suc_conv numeral_2_eq_2)
  define r where "r = orientation mod 2"
  have f: "(\<lambda>k. row ! nat ((int k + orientation) mod 2)) = (\<lambda>k. row ! nat ((int k + r) mod 2))"
    by (simp add: r_def mod_add_right_eq)
  have "r = 0 \<or> r = 1"
    unfolding r_def by presburger
  then show ?thesis
    unfolding f upt_two by (auto simp: row)
qed

lemma corner_rows: "length corner_stickers = 8 \<and> list_all (\<lambda>row. length row = 3) corner_stickers"
  by (simp add: corner_stickers_def)

lemma edge_rows: "length edge_stickers = 12 \<and> list_all (\<lambda>row. length row = 2) edge_stickers"
  by (simp add: edge_stickers_def)

lemma tables_sorted:
  "sort (concat corner_stickers @ concat edge_stickers @ center_indices) = [0..<54]"
  by (simp add: corner_stickers_def edge_stickers_def center_indices_def upt_rec [of _ "numeral n" for n])

text \<open>
  What the encoder needs of a state: the two permutations. (It reads the orientations
  only through \<open>(k + orientation) % k_max\<close>, which Python keeps in \<open>[0, k_max)\<close>.)
\<close>

definition encodable :: "cube_state \<Rightarrow> bool" where
  "encodable s =
     (length (cp s) = 8 \<and> is_permutation (cp s) \<and> length (ep s) = 12 \<and> is_permutation (ep s))"

lemma is_permutation_mset:
  assumes "is_permutation xs"
  shows "mset (map nat xs) = mset [0..<length xs]"
proof -
  from assms have range: "\<forall>x \<in> set xs. 0 \<le> x \<and> x < int (length xs)" and d: "distinct xs"
    by (simp_all add: is_permutation_def valid_entries_def list_all_iff)
  from range have "inj_on nat (set xs)"
    by (intro inj_onI) (simp add: eq_nat_nat_iff)
  with d have dm: "distinct (map nat xs)"
    by (simp add: distinct_map)
  from range have sub: "set (map nat xs) \<subseteq> {0..<length xs}"
    by auto
  from dm have "card (set (map nat xs)) = length xs"
    using distinct_card [of "map nat xs"] by simp
  with sub have "set (map nat xs) = {0..<length xs}"
    by (intro card_subset_eq) simp_all
  with dm show ?thesis
    using set_eq_iff_mset_eq_distinct [of "map nat xs" "[0..<length xs]"] by simp
qed

lemma mset_concat_map_pointwise:
  "(\<And>x. x \<in> set xs \<Longrightarrow> mset (f x) = mset (g x)) \<Longrightarrow>
   mset (concat (map f xs)) = mset (concat (map g xs))"
  by (induction xs) simp_all

lemma piece_chars:
  "i < length stickers \<Longrightarrow> length (stickers ! i) = k_max \<Longrightarrow>
   map snd (piece_writes stickers k_max perm ori i)
     = map (\<lambda>p. [solved_chars ! p]) (stickers ! i)"
  by (auto simp: piece_writes_def Let_def intro: nth_equalityI)

lemma loop_chars:
  assumes "list_all (\<lambda>row. length row = k_max) stickers"
  shows "map snd (concat (map (piece_writes stickers k_max perm ori) [0..<length stickers]))
           = map (\<lambda>p. [solved_chars ! p]) (concat stickers)"
proof -
  have "map snd (concat (map (piece_writes stickers k_max perm ori) [0..<length stickers]))
          = concat (map (\<lambda>i. map (\<lambda>p. [solved_chars ! p]) (stickers ! i)) [0..<length stickers])"
    unfolding map_concat map_map comp_def
    using assms by (intro arg_cong [where f = concat] map_cong) (simp_all add: piece_chars list_all_length)
  also have "\<dots> = map (\<lambda>p. [solved_chars ! p]) (concat (map (\<lambda>i. stickers ! i) [0..<length stickers]))"
    by (simp add: map_concat comp_def)
  finally show ?thesis by (simp add: map_nth)
qed

lemma loop_targets:
  assumes rows: "list_all (\<lambda>row. length row = k_max) stickers"
    and rot: "\<And>(row :: nat list) o'. length row = k_max \<Longrightarrow>
        mset (map (\<lambda>k. row ! nat ((int k + o') mod int k_max)) [0..<k_max]) = mset row"
    and perm: "is_permutation perm" "length perm = length stickers"
  shows "mset (map fst (concat (map (piece_writes stickers k_max perm ori) [0..<length stickers])))
           = mset (concat stickers)"
proof -
  let ?n = "length stickers"
  have slot: "nat (perm ! i) < ?n" if "i < ?n" for i
    using perm that pfun_less [of perm i] by (simp add: is_permutation_def pfun_def)
  have piece: "mset (map fst (piece_writes stickers k_max perm ori i)) = mset (stickers ! nat (perm ! i))"
    if "i < ?n" for i
  proof -
    from rows slot [OF that] have "length (stickers ! nat (perm ! i)) = k_max"
      by (simp add: list_all_length)
    from rot [OF this, of "ori ! i"] show ?thesis
      by (simp add: piece_writes_def Let_def comp_def)
  qed
  have "mset (map fst (concat (map (piece_writes stickers k_max perm ori) [0..<?n])))
          = mset (concat (map (\<lambda>i. map fst (piece_writes stickers k_max perm ori i)) [0..<?n]))"
    by (simp add: map_concat comp_def)
  also have "\<dots> = mset (concat (map (\<lambda>i. stickers ! nat (perm ! i)) [0..<?n]))"
    by (intro mset_concat_map_pointwise piece) simp
  also have "\<dots> = mset (concat (map (\<lambda>t. stickers ! t) (map nat perm)))"
  proof -
    have "map (\<lambda>i. stickers ! nat (perm ! i)) [0..<?n] = map (\<lambda>t. stickers ! t) (map nat perm)"
      using perm(2) by (intro nth_equalityI) simp_all
    then show ?thesis by simp
  qed
  also have "\<dots> = mset (concat (map (\<lambda>t. stickers ! t) [0..<?n]))"
    using is_permutation_mset [OF perm(1)] perm(2) by (intro mset_concat_map_cong) simp
  finally show ?thesis by (simp add: map_nth)
qed

lemma all_targets:
  assumes "encodable s"
  shows "mset (map fst (all_writes s)) = mset [0..<54]"
proof -
  have c: "mset (map fst (corner_writes s)) = mset (concat corner_stickers)"
  proof -
    have "mset (map fst (concat (map (piece_writes corner_stickers 3 (cp s) (co s))
            [0..<length corner_stickers]))) = mset (concat corner_stickers)"
    proof (rule loop_targets)
      show "list_all (\<lambda>row. length row = 3) corner_stickers"
        using corner_rows by simp
      show "mset (map (\<lambda>k. row ! nat ((int k + o') mod int 3)) [0..<3]) = mset row"
        if "length row = 3" for row :: "nat list" and o'
        using rotate_three [OF that] by simp
      show "is_permutation (cp s)" and "length (cp s) = length corner_stickers"
        using assms corner_rows by (simp_all add: encodable_def)
    qed
    then show ?thesis by (simp add: corner_writes_def corner_rows)
  qed
  have e: "mset (map fst (edge_writes s)) = mset (concat edge_stickers)"
  proof -
    have "mset (map fst (concat (map (piece_writes edge_stickers 2 (ep s) (eo s))
            [0..<length edge_stickers]))) = mset (concat edge_stickers)"
    proof (rule loop_targets)
      show "list_all (\<lambda>row. length row = 2) edge_stickers"
        using edge_rows by simp
      show "mset (map (\<lambda>k. row ! nat ((int k + o') mod int 2)) [0..<2]) = mset row"
        if "length row = 2" for row :: "nat list" and o'
        using rotate_two [OF that] by simp
      show "is_permutation (ep s)" and "length (ep s) = length edge_stickers"
        using assms edge_rows by (simp_all add: encodable_def)
    qed
    then show ?thesis by (simp add: edge_writes_def edge_rows)
  qed
  have "mset (map fst (all_writes s))
          = mset (concat corner_stickers @ concat edge_stickers @ center_indices)"
    using c e by (simp add: all_writes_def center_writes_def comp_def)
  also have "\<dots> = mset (sort (concat corner_stickers @ concat edge_stickers @ center_indices))"
    by simp
  finally show ?thesis
    by (simp only: tables_sorted)
qed

lemma all_chars:
  "map snd (all_writes s)
     = map (\<lambda>p. [solved_chars ! p]) (concat corner_stickers @ concat edge_stickers @ center_indices)"
  using loop_chars [of 3 corner_stickers "cp s" "co s"] loop_chars [of 2 edge_stickers "ep s" "eo s"]
    corner_rows edge_rows
  by (simp add: all_writes_def corner_writes_def edge_writes_def center_writes_def comp_def)

subsection \<open>Executing assignments to distinct indices\<close>

lemma length_store: "length (store ws f) = length f"
  unfolding store_def by (induction ws arbitrary: f) (simp_all add: case_prod_beta)

lemma store_Cons: "store ((i, c) # ws) f = store ws (f[i := c])"
  by (simp add: store_def)

lemma store_nth_other: "i \<notin> fst ` set ws \<Longrightarrow> store ws f ! i = f ! i"
proof (induction ws arbitrary: f)
  case Nil
  show ?case by (simp add: store_def)
next
  case (Cons w ws)
  obtain j c where w: "w = (j, c)" by (cases w)
  with Cons show ?case by (simp add: store_Cons)
qed

lemma store_nth:
  "distinct (map fst ws) \<Longrightarrow> (i, c) \<in> set ws \<Longrightarrow> i < length f \<Longrightarrow> store ws f ! i = c"
proof (induction ws arbitrary: f)
  case Nil
  then show ?case by simp
next
  case (Cons w ws)
  obtain j c' where w: "w = (j, c')" by (cases w)
  show ?case
  proof (cases "(i, c) = w")
    case True
    with Cons.prems w have "i \<notin> fst ` set ws" by auto
    with True w Cons.prems show ?thesis
      by (simp add: store_Cons store_nth_other)
  next
    case False
    with Cons.prems w have "store ws (f[j := c']) ! i = c"
      by (intro Cons.IH) auto
    with w show ?thesis by (simp add: store_Cons)
  qed
qed

lemma store_all:
  assumes d: "distinct (map fst ws)" and cover: "set (map fst ws) = {0..<length f}"
  shows "mset (store ws f) = mset (map snd ws)"
proof -
  let ?h = "\<lambda>i. the (map_of ws i)"
  have h: "?h (fst w) = snd w" if "w \<in> set ws" for w
    using d that by (cases w) simp
  have "store ws f = map ?h [0..<length f]"
  proof (rule nth_equalityI)
    show "length (store ws f) = length (map ?h [0..<length f])"
      by (simp add: length_store)
  next
    fix i assume "i < length (store ws f)"
    then have i: "i < length f" by (simp add: length_store)
    with cover have "i \<in> fst ` set ws" by auto
    then obtain w where w: "w \<in> set ws" "i = fst w" by auto
    then have "(i, snd w) \<in> set ws" by simp
    from store_nth [OF d this i] h [OF w(1)] w(2) i
    show "store ws f ! i = map ?h [0..<length f] ! i" by simp
  qed
  then have "mset (store ws f) = image_mset ?h (mset [0..<length f])"
    by (simp del: mset_upt)
  also have "mset [0..<length f] = mset (map fst ws)"
    using d cover set_eq_iff_mset_eq_distinct [of "[0..<length f]" "map fst ws"] by simp
  also have "image_mset ?h (mset (map fst ws)) = mset (map (\<lambda>w. ?h (fst w)) ws)"
    by (simp add: multiset.map_comp comp_def)
  also have "map (\<lambda>w. ?h (fst w)) ws = map snd ws"
    by (intro map_cong refl h)
  finally show ?thesis .
qed

subsection \<open>The encoded string\<close>

lemma solved_length: "length solved_chars = 54"
  by (simp add: solved_chars_def)

lemma facelets_mset:
  assumes "encodable s"
  shows "mset (facelets_of s) = mset (map (\<lambda>c. [c]) solved_chars)"
proof -
  have t: "mset (map fst (all_writes s)) = mset [0..<54]"
    by (rule all_targets [OF assms])
  then have d: "distinct (map fst (all_writes s))"
    using mset_eq_imp_distinct_iff [OF t] by simp
  from t have cover: "set (map fst (all_writes s)) = {0..<length (replicate 54 '''')}"
    using mset_eq_setD [OF t] by simp
  have "mset (facelets_of s) = mset (map snd (all_writes s))"
    unfolding facelets_of_def by (rule store_all [OF d cover])
  also have "\<dots> = image_mset (\<lambda>p. [solved_chars ! p])
                     (mset (concat corner_stickers @ concat edge_stickers @ center_indices))"
    by (simp only: all_chars mset_map)
  also have "mset (concat corner_stickers @ concat edge_stickers @ center_indices) = mset [0..<54]"
    using mset_sort [of "\<lambda>x. x" "concat corner_stickers @ concat edge_stickers @ center_indices"]
    by (simp only: tables_sorted)
  also have "image_mset (\<lambda>p. [solved_chars ! p]) (mset [0..<54])
               = mset (map (\<lambda>c. [c]) (map (\<lambda>p. solved_chars ! p) [0..<length solved_chars]))"
    by (simp add: solved_length multiset.map_comp comp_def del: mset_upt)
  finally show ?thesis by (simp only: map_nth)
qed

lemma mset_concat_cong: "mset xss = mset yss \<Longrightarrow> mset (concat xss) = mset (concat yss)"
  using mset_concat_map_cong [of xss yss "\<lambda>x. x"] by simp

lemma encode_state_result:
  assumes "encodable s"
  shows "'''' \<notin> set (facelets_of s)"
    and "encode_state s = Inr (concat (facelets_of s))"
    and "mset (concat (facelets_of s)) = mset solved_chars"
proof -
  from facelets_mset [OF assms]
  have "set (facelets_of s) = set (map (\<lambda>c. [c]) solved_chars)"
    by (rule mset_eq_setD)
  then show ne: "'''' \<notin> set (facelets_of s)" by auto
  then show "encode_state s = Inr (concat (facelets_of s))"
    by (simp add: encode_state_def Let_def)
  have "mset (concat (facelets_of s)) = mset (concat (map (\<lambda>c. [c]) solved_chars))"
    by (intro mset_concat_cong facelets_mset assms)
  then show "mset (concat (facelets_of s)) = mset solved_chars"
    by simp
qed

subsection \<open>The state of valid draws\<close>

lemma get_permutation_parity_returns:
  assumes "valid_entries perm"
  shows "\<exists>r. get_permutation_parity perm = Inr r"
proof -
  from parity_loop_result [of perm "replicate (length perm) False" "[0..<length perm]" 0 0] assms
  obtain v c where "parity_run perm = Inr ((v, card (Vset v)), c)"
    by (auto simp: parity_run_def Vset_replicate)
  then show ?thesis by (simp add: get_permutation_parity_def)
qed

lemma swap_first_two_permutation:
  assumes "is_permutation xs" and "2 \<le> length xs"
  shows "is_permutation (swap_first_two xs)" and "length (swap_first_two xs) = length xs"
proof -
  have m: "mset (swap_first_two xs) = mset xs"
    unfolding swap_first_two_def using assms(2) by (intro mset_swap; linarith)
  show l: "length (swap_first_two xs) = length xs"
    by (simp add: swap_first_two_def)
  from assms(1) have "distinct xs" and "\<forall>x \<in> set xs. 0 \<le> x \<and> x < int (length xs)"
    by (simp_all add: is_permutation_def valid_entries_def list_all_iff)
  with mset_eq_imp_distinct_iff [OF m] mset_eq_setD [OF m] l
  show "is_permutation (swap_first_two xs)"
    by (simp add: is_permutation_def valid_entries_def list_all_iff)
qed

lemma generate_state_valid:
  assumes "valid_draws d"
  shows "\<exists>parity_cp parity_ep.
           get_permutation_parity (shuffled_cp d) = Inr parity_cp
         \<and> get_permutation_parity (shuffled_ep d) = Inr parity_ep
         \<and> generate_state d = Inr \<lparr>cp = shuffled_cp d,
               co = randint_co d @ [(3 - (sum_list (randint_co d) mod 3)) mod 3],
               ep = (if parity_cp \<noteq> parity_ep then swap_first_two (shuffled_ep d)
                     else shuffled_ep d),
               eo = randint_eo d @ [(2 - (sum_list (randint_eo d) mod 2)) mod 2]\<rparr>"
proof -
  from assms have "valid_entries (shuffled_cp d)" and "valid_entries (shuffled_ep d)"
    by (simp_all add: valid_draws_def is_permutation_def)
  then obtain pc pe where "get_permutation_parity (shuffled_cp d) = Inr pc"
    and "get_permutation_parity (shuffled_ep d) = Inr pe"
    using get_permutation_parity_returns by blast
  then show ?thesis by (simp add: generate_state_def Let_def)
qed

lemma generate_state_encodable:
  assumes "valid_draws d"
  shows "\<exists>s. generate_state d = Inr s \<and> encodable s"
proof -
  from generate_state_valid [OF assms] obtain pc pe :: int where
    g: "generate_state d = Inr \<lparr>cp = shuffled_cp d,
               co = randint_co d @ [(3 - (sum_list (randint_co d) mod 3)) mod 3],
               ep = (if pc \<noteq> pe then swap_first_two (shuffled_ep d) else shuffled_ep d),
               eo = randint_eo d @ [(2 - (sum_list (randint_eo d) mod 2)) mod 2]\<rparr>"
    by blast
  from assms have e: "is_permutation (shuffled_ep d)" "length (shuffled_ep d) = 12"
    and c: "is_permutation (shuffled_cp d)" "length (shuffled_cp d) = 8"
    by (simp_all add: valid_draws_def)
  from e swap_first_two_permutation [of "shuffled_ep d"]
  have "is_permutation (swap_first_two (shuffled_ep d))" "length (swap_first_two (shuffled_ep d)) = 12"
    by simp_all
  with g e c show ?thesis by (simp add: encodable_def)
qed

lemma piece_targets:
  assumes "nat (perm ! i) < length stickers"
    and "length (stickers ! nat (perm ! i)) = k_max" and "k_max = 3 \<or> k_max = 2"
  shows "mset (map fst (piece_writes stickers k_max perm ori i)) = mset (stickers ! nat (perm ! i))"
  using assms rotate_three [of "stickers ! nat (perm ! i)" "ori ! i"]
    rotate_two [of "stickers ! nat (perm ! i)" "ori ! i"]
  by (auto simp: piece_writes_def Let_def comp_def)

subsection \<open>The claims on the generated state and string\<close>

definition example_draws :: draws where
  "example_draws =
     \<lparr>shuffled_cp = [3, 1, 2, 0, 4, 7, 6, 5],
      shuffled_ep = [0, 1, 2, 3, 4, 5, 6, 7, 8, 9, 11, 10],
      randint_co = [1, 2, 0, 0, 1, 0, 2],
      randint_eo = [1, 0, 0, 0, 1, 0, 0, 0, 0, 1, 0]\<rparr>"

definition example_state :: cube_state where
  "example_state =
     \<lparr>cp = [3, 1, 2, 0, 4, 7, 6, 5], co = [1, 2, 0, 0, 1, 0, 2, 0],
      ep = [1, 0, 2, 3, 4, 5, 6, 7, 8, 9, 11, 10], eo = [1, 0, 0, 0, 1, 0, 0, 0, 0, 1, 0, 1]\<rparr>"

lemma example_draws_valid: "valid_draws example_draws"
  by (simp add: valid_draws_def is_permutation_def valid_entries_def example_draws_def)

lemma example_state_generated: "generate_state example_draws = Inr example_state"
  by code_simp

lemma example_string:
  "generate_random_state_string example_draws
     = Inr ''UUFUUFFUUBURFRRFDLLRRFFRBFDDDRDDRBLDLLULLLDBRUBBBBBFDL''"
  by code_simp

text \<open>
  C3. The state generated from valid draws has corner orientations that sum to 0 modulo
  3 and edge orientations that sum to 0 modulo 2: the first seven corner orientations are
  the seven draws, the eighth is \<open>(3 - (sum mod 3)) mod 3\<close>; the first eleven edge
  orientations are the eleven draws, the twelfth is \<open>(2 - (sum mod 2)) mod 2\<close>.
\<close>

theorem orientation_sums:
  assumes "valid_draws d"
  shows "\<exists>s. generate_state d = Inr s
           \<and> sum_list (co s) mod 3 = 0 \<and> sum_list (eo s) mod 2 = 0
           \<and> length (co s) = 8 \<and> take 7 (co s) = randint_co d
           \<and> co s ! 7 = (3 - (sum_list (take 7 (co s)) mod 3)) mod 3
           \<and> length (eo s) = 12 \<and> take 11 (eo s) = randint_eo d
           \<and> eo s ! 11 = (2 - (sum_list (take 11 (eo s)) mod 2)) mod 2
           \<and> list_all (\<lambda>v. 0 \<le> v \<and> v \<le> 2) (co s) \<and> list_all (\<lambda>v. 0 \<le> v \<and> v \<le> 1) (eo s)"
proof -
  define x where "x = (3 - (sum_list (randint_co d) mod 3)) mod 3"
  define y where "y = (2 - (sum_list (randint_eo d) mod 2)) mod 2"
  from generate_state_valid [OF assms] obtain pc pe :: int where
    g: "generate_state d = Inr \<lparr>cp = shuffled_cp d, co = randint_co d @ [x],
               ep = (if pc \<noteq> pe then swap_first_two (shuffled_ep d) else shuffled_ep d),
               eo = randint_eo d @ [y]\<rparr>"
    unfolding x_def y_def by blast
  let ?s = "\<lparr>cp = shuffled_cp d, co = randint_co d @ [x],
               ep = (if pc \<noteq> pe then swap_first_two (shuffled_ep d) else shuffled_ep d),
               eo = randint_eo d @ [y]\<rparr>"
  from assms have l: "length (randint_co d) = 7" "length (randint_eo d) = 11"
    and r: "list_all (\<lambda>v. 0 \<le> v \<and> v \<le> 2) (randint_co d)"
      "list_all (\<lambda>v. 0 \<le> v \<and> v \<le> 1) (randint_eo d)"
    by (simp_all add: valid_draws_def)
  have x: "(sum_list (randint_co d) + x) mod 3 = 0" "0 \<le> x" "x \<le> 2"
    unfolding x_def by presburger+
  have y: "(sum_list (randint_eo d) + y) mod 2 = 0" "0 \<le> y" "y \<le> 1"
    unfolding y_def by presburger+
  have sums: "sum_list (co ?s) mod 3 = 0" "sum_list (eo ?s) mod 2 = 0"
    using x(1) y(1) by simp_all
  have corners: "length (co ?s) = 8" "take 7 (co ?s) = randint_co d"
    "co ?s ! 7 = (3 - (sum_list (take 7 (co ?s)) mod 3)) mod 3"
    using l by (simp_all add: nth_append x_def)
  have edges: "length (eo ?s) = 12" "take 11 (eo ?s) = randint_eo d"
    "eo ?s ! 11 = (2 - (sum_list (take 11 (eo ?s)) mod 2)) mod 2"
    using l by (simp_all add: nth_append y_def)
  have ranges: "list_all (\<lambda>v. 0 \<le> v \<and> v \<le> 2) (co ?s)" "list_all (\<lambda>v. 0 \<le> v \<and> v \<le> 1) (eo ?s)"
    using r x(2,3) y(2,3) by simp_all
  from g sums corners edges ranges show ?thesis
    by (intro exI [of _ ?s] conjI)
qed

theorem orientation_sums_witness:
  "valid_draws example_draws \<and> generate_state example_draws = Inr example_state
   \<and> sum_list (co example_state) = 6 \<and> sum_list (eo example_state) = 4"
proof -
  have "sum_list (co example_state) = 6 \<and> sum_list (eo example_state) = 4"
    by (simp add: example_state_def)
  with orientation_sums [OF example_draws_valid] example_draws_valid example_state_generated
  show ?thesis by simp
qed

text \<open>
  C5. For every pair of permutations \<open>cp\<close> of \<open>[0, 8)\<close> and \<open>ep\<close> of \<open>[0, 12)\<close> and all
  orientations, the assignments of the corner loop, the edge loop and the center fill go
  to 54 different indices, which are all of \<open>[0, 54)\<close>: the three tables partition
  \<open>[0, 54)\<close>, and each piece writes a rearrangement of its target slot's positions. So
  no facelet stays empty and the encoder does not raise; on valid draws
  \<open>generate_random_state_string\<close> returns a string.
\<close>

theorem encoder_writes_every_position_once:
  "(encodable s \<longrightarrow>
      distinct (map fst (all_writes s)) \<and> set (map fst (all_writes s)) = {0..<54}
    \<and> length (all_writes s) = 54
    \<and> (\<forall>i<8. mset (map fst (piece_writes corner_stickers 3 (cp s) (co s) i))
                 = mset (corner_stickers ! nat (cp s ! i)))
    \<and> (\<forall>i<12. mset (map fst (piece_writes edge_stickers 2 (ep s) (eo s) i))
                 = mset (edge_stickers ! nat (ep s ! i)))
    \<and> missing_indices (facelets_of s) = []
    \<and> encode_state s = Inr (concat (facelets_of s)))
   \<and> (valid_draws d \<longrightarrow> (\<exists>str. generate_random_state_string d = Inr str))
   \<and> mset (concat corner_stickers @ concat edge_stickers @ center_indices) = mset [0..<54]"
proof (intro conjI impI)
  assume enc: "encodable s"
  have t: "mset (map fst (all_writes s)) = mset [0..<54]"
    by (rule all_targets [OF enc])
  show "distinct (map fst (all_writes s))"
    using mset_eq_imp_distinct_iff [OF t] by simp
  show "set (map fst (all_writes s)) = {0..<54}"
    using mset_eq_setD [OF t] by simp
  show "length (all_writes s) = 54"
    using mset_eq_length [OF t] by simp
  have slot_c: "nat (cp s ! i) < 8" if "i < 8" for i
    using enc that pfun_less [of "cp s" i] by (simp add: encodable_def is_permutation_def pfun_def)
  have slot_e: "nat (ep s ! i) < 12" if "i < 12" for i
    using enc that pfun_less [of "ep s" i] by (simp add: encodable_def is_permutation_def pfun_def)
  show "\<forall>i<8. mset (map fst (piece_writes corner_stickers 3 (cp s) (co s) i))
                 = mset (corner_stickers ! nat (cp s ! i))"
    using slot_c corner_rows by (intro allI impI piece_targets) (simp_all add: list_all_length)
  show "\<forall>i<12. mset (map fst (piece_writes edge_stickers 2 (ep s) (eo s) i))
                 = mset (edge_stickers ! nat (ep s ! i))"
    using slot_e edge_rows by (intro allI impI piece_targets) (simp_all add: list_all_length)
  have "'''' \<notin> set (facelets_of s)"
    by (rule encode_state_result(1) [OF enc])
  then have "facelets_of s ! i \<noteq> ''''" if "i < length (facelets_of s)" for i
    using nth_mem [OF that] by metis
  then show "missing_indices (facelets_of s) = []"
    by (simp add: missing_indices_def filter_empty_conv)
  show "encode_state s = Inr (concat (facelets_of s))"
    by (rule encode_state_result(2) [OF enc])
next
  assume "valid_draws d"
  from generate_state_encodable [OF this] obtain s where "generate_state d = Inr s" "encodable s"
    by blast
  then show "\<exists>str. generate_random_state_string d = Inr str"
    using encode_state_result(2) [of s] by (simp add: generate_random_state_string_def)
next
  show "mset (concat corner_stickers @ concat edge_stickers @ center_indices) = mset [0..<54]"
    using mset_sort [of "\<lambda>x. x" "concat corner_stickers @ concat edge_stickers @ center_indices"]
    by (simp only: tables_sorted)
qed

theorem encoder_writes_every_position_once_witness:
  "encodable example_state
   \<and> encode_state example_state = Inr ''UUFUUFFUUBURFRRFDLLRRFFRBFDDDRDDRBLDLLULLLDBRUBBBBBFDL''
   \<and> length (all_writes example_state) = 54
   \<and> valid_draws example_draws
   \<and> generate_random_state_string example_draws
       = Inr ''UUFUUFFUUBURFRRFDLLRRFFRBFDDDRDDRBLDLLULLLDBRUBBBBBFDL''"
proof -
  have e: "encodable example_state"
    by (simp add: encodable_def is_permutation_def valid_entries_def example_state_def)
  have s: "encode_state example_state = Inr ''UUFUUFFUUBURFRRFDLLRRFFRBFDDDRDDRBLDLLULLLDBRUBBBBBFDL''"
    by code_simp
  from encoder_writes_every_position_once [of example_state example_draws] e
  have "length (all_writes example_state) = 54" by blast
  with e s example_draws_valid example_string show ?thesis by simp
qed

lemma solved_counts: "list_all (\<lambda>c. count_list solved_chars c = 9) face_symbols"
  by (simp add: face_symbols_def solved_chars_def)

lemma solved_symbols: "set solved_chars = set face_symbols"
  by (simp add: face_symbols_def solved_chars_def)

text \<open>
  C4. The string generated from valid draws has length 54, is the concatenation of 54
  one-character strings (no position is empty) and has each of the six face symbols
  exactly 9 times: it is a rearrangement of the solved string.
\<close>

theorem facelet_string_counts:
  assumes "valid_draws d"
  shows "\<exists>s str. generate_state d = Inr s \<and> generate_random_state_string d = Inr str
           \<and> str = concat (facelets_of s)
           \<and> length (facelets_of s) = 54 \<and> list_all (\<lambda>x. length x = 1) (facelets_of s)
           \<and> length str = 54
           \<and> list_all (\<lambda>c. count_list str c = 9) face_symbols
           \<and> set str = set face_symbols"
proof -
  from generate_state_encodable [OF assms] obtain s where g: "generate_state d = Inr s"
    and enc: "encodable s"
    by blast
  let ?str = "concat (facelets_of s)"
  have r: "generate_random_state_string d = Inr ?str"
    using g encode_state_result(2) [OF enc] by (simp add: generate_random_state_string_def)
  have m: "mset ?str = mset solved_chars"
    by (rule encode_state_result(3) [OF enc])
  have fm: "mset (facelets_of s) = mset (map (\<lambda>c. [c]) solved_chars)"
    by (rule facelets_mset [OF enc])
  have len_f: "length (facelets_of s) = 54"
    using mset_eq_length [OF fm] by (simp add: solved_length)
  have one: "list_all (\<lambda>x. length x = 1) (facelets_of s)"
    using mset_eq_setD [OF fm] by (auto simp: list_all_iff)
  have len: "length ?str = 54"
    using mset_eq_length [OF m] by (simp add: solved_length)
  have cnt: "list_all (\<lambda>c. count_list ?str c = 9) face_symbols"
  proof -
    have "count_list ?str c = count_list solved_chars c" for c
      using arg_cong [OF m, of "\<lambda>M. count M c"] by (simp only: count_mset)
    with solved_counts show ?thesis by simp
  qed
  have syms: "set ?str = set face_symbols"
    using mset_eq_setD [OF m] solved_symbols by simp
  from g r len_f one len cnt syms show ?thesis
    by (intro exI [of _ s] exI [of _ ?str] conjI refl)
qed

theorem facelet_string_counts_witness:
  "valid_draws example_draws
   \<and> generate_random_state_string example_draws
       = Inr ''UUFUUFFUUBURFRRFDLLRRFFRBFDDDRDDRBLDLLULLLDBRUBBBBBFDL''
   \<and> list_all (\<lambda>c. count_list ''UUFUUFFUUBURFRRFDLLRRFFRBFDDDRDDRBLDLLULLLDBRUBBBBBFDL'' c = 9)
        face_symbols"
proof -
  from facelet_string_counts [OF example_draws_valid]
  obtain str where "generate_random_state_string example_draws = Inr str"
    and "list_all (\<lambda>c. count_list str c = 9) face_symbols"
    by blast
  with example_string
  have "list_all (\<lambda>c. count_list ''UUFUUFFUUBURFRRFDLLRRFFRBFDDDRDDRBLDLLULLLDBRUBBBBBFDL'' c = 9)
        face_symbols"
    by simp
  with example_draws_valid example_string show ?thesis by simp
qed

section \<open>\<open>get_scramble\<close>\<close>

text \<open>
  The solver \<open>kociemba.solve\<close> is a parameter: given the state string it returns a
  solution string or raises an exception, of any class. \<open>print\<close> writes a line to
  standard output; the lines written are part of the result, in the order of the calls
  (the writing itself is taken to succeed).

  \<open>try_body\<close> is the body of the \<open>try\<close> statement: it yields the value of the variable
  \<open>state\<close> when the body ends (\<open>""\<close> when \<open>generate_random_state_string\<close> raised), the
  lines printed, and either the exception raised or the value returned. \<open>get_scramble\<close>
  adds the handler \<open>except Exception as e\<close>, which catches \<open>e\<close> only when
  \<open>isinstance(e, Exception)\<close>; any other exception leaves the function. The result of
  \<open>get_scramble\<close> is the pair of the lines printed and of what the caller sees: \<open>Inl\<close> an
  exception that propagates, \<open>Inr\<close> the string returned.
\<close>

type_synonym solver = "string \<Rightarrow> py_exception + string"

definition try_body ::
  "draws \<Rightarrow> solver \<Rightarrow> string \<times> string list \<times> (py_exception + string)" where
  "try_body d solve =
     (case generate_random_state_string d of
        Inl e \<Rightarrow> ('''', [], Inl e)
      | Inr state \<Rightarrow>
          (case solve state of
             Inl e \<Rightarrow> (state, [''DEBUG: Generated State: '' @ state], Inl e)
           | Inr solution \<Rightarrow>
               (let scramble = invert_solution solution
                in (state,
                    [''DEBUG: Generated State: '' @ state,
                     ''DEBUG: Kociemba Solution: '' @ solution,
                     ''DEBUG: Final Scramble: '' @ scramble],
                    Inr scramble))))"

definition error_text :: "py_exception \<Rightarrow> string \<Rightarrow> string" where
  "error_text e state = ''Error generating scramble: '' @ exc_str e @ '' | State: '' @ state"

definition get_scramble :: "draws \<Rightarrow> solver \<Rightarrow> string list \<times> (py_exception + string)" where
  "get_scramble d solve =
     (case try_body d solve of
        (state, printed, Inr scramble) \<Rightarrow> (printed, Inr scramble)
      | (state, printed, Inl e) \<Rightarrow>
          if isinstance_Exception e
          then (printed @ [''ERROR: '' @ exc_str e], Inr (error_text e state))
          else (printed, Inl e))"

subsection \<open>What \<open>get_scramble\<close> returns\<close>

text \<open>
  Two solvers that fail on every state: one with a \<open>ValueError\<close>, as \<open>kociemba.solve\<close>
  does on a string it rejects, one with a \<open>KeyboardInterrupt\<close>, as when the user
  interrupts the search.
\<close>

definition failing_solver :: solver where
  "failing_solver state = Inl (ValueError ''bad cube'')"

definition interrupted_solver :: solver where
  "interrupted_solver state = Inl (KeyboardInterrupt '''')"

lemma get_scramble_cases:
  "get_scramble d solve =
     (case generate_random_state_string d of
        Inl e \<Rightarrow>
          if isinstance_Exception e
          then ([''ERROR: '' @ exc_str e], Inr (error_text e ''''))
          else ([], Inl e)
      | Inr state \<Rightarrow>
          (case solve state of
             Inl e \<Rightarrow>
               if isinstance_Exception e
               then ([''DEBUG: Generated State: '' @ state, ''ERROR: '' @ exc_str e],
                     Inr (error_text e state))
               else ([''DEBUG: Generated State: '' @ state], Inl e)
           | Inr solution \<Rightarrow>
               ([''DEBUG: Generated State: '' @ state,
                 ''DEBUG: Kociemba Solution: '' @ solution,
                 ''DEBUG: Final Scramble: '' @ invert_solution solution],
                Inr (invert_solution solution))))"
  by (simp add: get_scramble_def try_body_def Let_def split: sum.splits)

lemma valid_draws_string:
  assumes "valid_draws d"
  shows "\<exists>state. generate_random_state_string d = Inr state \<and> length state = 54"
proof -
  from generate_state_encodable [OF assms] obtain s where g: "generate_state d = Inr s"
    and enc: "encodable s"
    by blast
  have "generate_random_state_string d = Inr (concat (facelets_of s))"
    using g encode_state_result(2) [OF enc] by (simp add: generate_random_state_string_def)
  moreover have "length (concat (facelets_of s)) = 54"
    using mset_eq_length [OF encode_state_result(3) [OF enc]] by (simp add: solved_length)
  ultimately show ?thesis by blast
qed

text \<open>
  C1 as the specification states it does not hold. The handler of \<open>get_scramble\<close> is
  \<open>except Exception\<close>, and not every exception is of that class: when the solver raises
  \<open>KeyboardInterrupt\<close> on the state generated from valid draws, the handler does not
  catch it, \<open>get_scramble\<close> returns no string and the exception reaches the caller.
\<close>

theorem get_scramble_propagates_KeyboardInterrupt:
  "valid_draws example_draws
   \<and> generate_random_state_string example_draws
       = Inr ''UUFUUFFUUBURFRRFDLLRRFFRBFDDDRDDRBLDLLULLLDBRUBBBBBFDL''
   \<and> interrupted_solver ''UUFUUFFUUBURFRRFDLLRRFFRBFDDDRDDRBLDLLULLLDBRUBBBBBFDL''
       = Inl (KeyboardInterrupt '''')
   \<and> get_scramble example_draws interrupted_solver
       = ([''DEBUG: Generated State: UUFUUFFUUBURFRRFDLLRRFFRBFDDDRDDRBLDLLULLLDBRUBBBBBFDL''],
          Inl (KeyboardInterrupt ''''))"
  by (simp add: get_scramble_cases example_draws_valid example_string interrupted_solver_def)

text \<open>
  C1 as amended. On valid draws \<open>generate_random_state_string\<close> returns a state string,
  and what \<open>get_scramble\<close> does is decided by the solver's outcome on it. When the solver
  returns a solution, \<open>get_scramble\<close> returns the inverted solution. When the solver
  raises an exception of the class \<open>Exception\<close>, \<open>get_scramble\<close> returns a string that
  is not empty: a fixed prefix, the text of the exception, a separator and the state
  string (and it prints the text of the exception). When the solver raises any other
  exception, that exception reaches the caller. So an exception reaches the caller
  only when the solver raised it and it is not of the class \<open>Exception\<close>.
\<close>

theorem get_scramble_catches_Exception:
  assumes "valid_draws d"
  shows "\<exists>state. generate_random_state_string d = Inr state
           \<and> (\<forall>solution. solve state = Inr solution \<longrightarrow>
                 snd (get_scramble d solve) = Inr (invert_solution solution))
           \<and> (\<forall>e. solve state = Inl e \<and> isinstance_Exception e \<longrightarrow>
                 snd (get_scramble d solve)
                   = Inr (''Error generating scramble: '' @ exc_str e @ '' | State: '' @ state)
               \<and> snd (get_scramble d solve) \<noteq> Inr ''''
               \<and> fst (get_scramble d solve)
                   = [''DEBUG: Generated State: '' @ state, ''ERROR: '' @ exc_str e])
           \<and> (\<forall>e. solve state = Inl e \<and> \<not> isinstance_Exception e \<longrightarrow>
                 snd (get_scramble d solve) = Inl e)
           \<and> (\<forall>e. snd (get_scramble d solve) = Inl e \<longrightarrow>
                 solve state = Inl e \<and> \<not> isinstance_Exception e)"
proof -
  from valid_draws_string [OF assms] obtain state where
    s: "generate_random_state_string d = Inr state"
    by blast
  have returned: "snd (get_scramble d solve) = Inr (invert_solution solution)"
    if "solve state = Inr solution" for solution
    using s that by (simp add: get_scramble_cases)
  have caught: "snd (get_scramble d solve)
        = Inr (''Error generating scramble: '' @ exc_str e @ '' | State: '' @ state)
      \<and> snd (get_scramble d solve) \<noteq> Inr ''''
      \<and> fst (get_scramble d solve)
        = [''DEBUG: Generated State: '' @ state, ''ERROR: '' @ exc_str e]"
    if "solve state = Inl e \<and> isinstance_Exception e" for e
    using s that by (simp add: get_scramble_cases error_text_def)
  have passed: "snd (get_scramble d solve) = Inl e"
    if "solve state = Inl e \<and> \<not> isinstance_Exception e" for e
    using s that by (simp add: get_scramble_cases)
  have only: "solve state = Inl e \<and> \<not> isinstance_Exception e"
    if "snd (get_scramble d solve) = Inl e" for e
    using s that by (simp add: get_scramble_cases split: sum.splits if_splits)
  from s returned caught passed only show ?thesis
    by blast
qed

theorem get_scramble_catches_Exception_witness:
  "valid_draws example_draws
   \<and> generate_random_state_string example_draws
       = Inr ''UUFUUFFUUBURFRRFDLLRRFFRBFDDDRDDRBLDLLULLLDBRUBBBBBFDL''
   \<and> failing_solver ''UUFUUFFUUBURFRRFDLLRRFFRBFDDDRDDRBLDLLULLLDBRUBBBBBFDL''
       = Inl (ValueError ''bad cube'')
   \<and> isinstance_Exception (ValueError ''bad cube'')
   \<and> snd (get_scramble example_draws failing_solver)
       = Inr (''Error generating scramble: bad cube | State: ''
              @ ''UUFUUFFUUBURFRRFDLLRRFFRBFDDDRDDRBLDLLULLLDBRUBBBBBFDL'')"
proof -
  have f: "failing_solver ''UUFUUFFUUBURFRRFDLLRRFFRBFDDDRDDRBLDLLULLLDBRUBBBBBFDL''
      = Inl (ValueError ''bad cube'')"
    by (simp add: failing_solver_def)
  have c: "isinstance_Exception (ValueError ''bad cube'')"
    by simp
  from get_scramble_catches_Exception [OF example_draws_valid, of failing_solver]
  obtain state where s: "generate_random_state_string example_draws = Inr state"
    and r: "\<And>e. failing_solver state = Inl e \<and> isinstance_Exception e \<Longrightarrow>
      snd (get_scramble example_draws failing_solver)
        = Inr (''Error generating scramble: '' @ exc_str e @ '' | State: '' @ state)"
    by blast
  from s example_string
  have "state = ''UUFUUFFUUBURFRRFDLLRRFFRBFDDDRDDRBLDLLULLLDBRUBBBBBFDL''"
    by simp
  with r [of "ValueError ''bad cube''"] f c
  have "snd (get_scramble example_draws failing_solver)
      = Inr (''Error generating scramble: '' @ exc_str (ValueError ''bad cube'') @ '' | State: ''
             @ ''UUFUUFFUUBURFRRFDLLRRFFRBFDDDRDDRBLDLLULLLDBRUBBBBBFDL'')"
    by simp
  with example_draws_valid example_string f c show ?thesis by simp
qed

section \<open>Cycles of a permutation\<close>

text \<open>
  A permutation of \<open>[0, n)\<close> as a function: injective on \<open>[0, n)\<close> and mapping it into
  itself. The cycle through \<open>i\<close> is the set of the iterates of \<open>i\<close>.
\<close>

definition perm_on :: "nat \<Rightarrow> (nat \<Rightarrow> nat) \<Rightarrow> bool" where
  "perm_on n p = (inj_on p {..<n} \<and> (\<forall>i<n. p i < n))"

definition orb :: "(nat \<Rightarrow> nat) \<Rightarrow> nat \<Rightarrow> nat set" where
  "orb p i = range (\<lambda>k. (p ^^ k) i)"

definition norb :: "nat \<Rightarrow> (nat \<Rightarrow> nat) \<Rightarrow> nat" where
  "norb n p = card (orb p ` {..<n})"

lemma orb_self: "i \<in> orb p i"
  unfolding orb_def by (rule range_eqI [of _ _ 0]) simp

lemma orb_step: "x \<in> orb p i \<Longrightarrow> p x \<in> orb p i"
proof -
  assume "x \<in> orb p i"
  then obtain k where "x = (p ^^ k) i" by (auto simp: orb_def)
  then have "p x = (p ^^ Suc k) i" by simp
  then show ?thesis unfolding orb_def by (rule range_eqI)
qed

lemma orb_funpow: "x \<in> orb p i \<Longrightarrow> (p ^^ k) x \<in> orb p i"
  by (induction k) (simp_all add: orb_step)

lemma orb_subset: "x \<in> orb p i \<Longrightarrow> orb p x \<subseteq> orb p i"
  by (auto simp: orb_def [of p x] orb_funpow)

lemma perm_on_less: "perm_on n p \<Longrightarrow> i < n \<Longrightarrow> p i < n"
  by (simp add: perm_on_def)

lemma perm_on_inj: "perm_on n p \<Longrightarrow> i < n \<Longrightarrow> j < n \<Longrightarrow> p i = p j \<Longrightarrow> i = j"
  by (auto simp: perm_on_def inj_on_def)

lemma funpow_less: "perm_on n p \<Longrightarrow> i < n \<Longrightarrow> (p ^^ k) i < n"
  by (induction k) (simp_all add: perm_on_less)

lemma orb_less: "perm_on n p \<Longrightarrow> i < n \<Longrightarrow> x \<in> orb p i \<Longrightarrow> x < n"
  by (auto simp: orb_def funpow_less)

lemma funpow_inj:
  "perm_on n p \<Longrightarrow> i < n \<Longrightarrow> j < n \<Longrightarrow> (p ^^ k) i = (p ^^ k) j \<Longrightarrow> i = j"
proof (induction k)
  case 0
  then show ?case by simp
next
  case (Suc k)
  have "p ((p ^^ k) i) = p ((p ^^ k) j)"
    using Suc.prems(4) by simp
  moreover have "(p ^^ k) i < n" and "(p ^^ k) j < n"
    using Suc.prems(1,2,3) by (simp_all add: funpow_less)
  ultimately have "(p ^^ k) i = (p ^^ k) j"
    using Suc.prems(1) perm_on_inj by blast
  then show ?case
    using Suc.prems(1,2,3) by (rule Suc.IH [rotated 3])
qed

lemma funpow_cancel:
  assumes "perm_on n p" and "i < n" and "a < b" and "(p ^^ a) i = (p ^^ b) i"
  shows "(p ^^ (b - a)) i = i"
proof -
  from assms(3) have "(p ^^ b) i = (p ^^ a) ((p ^^ (b - a)) i)"
    using funpow_add [of a "b - a" p] by simp
  with assms(4) have "(p ^^ a) i = (p ^^ a) ((p ^^ (b - a)) i)" by simp
  with assms(1,2) show ?thesis
    using funpow_inj [of n p i "(p ^^ (b - a)) i" a] by (simp add: funpow_less)
qed

lemma perm_returns:
  assumes "perm_on n p" and "i < n"
  shows "\<exists>L. 0 < L \<and> L \<le> n \<and> (p ^^ L) i = i"
proof -
  let ?f = "\<lambda>k. (p ^^ k) i"
  have "?f ` {..n} \<subseteq> {..<n}"
    using assms by (auto simp: funpow_less)
  then have "card (?f ` {..n}) \<le> card {..<n}"
    by (intro card_mono) simp_all
  then have "card (?f ` {..n}) < card {..n}" by simp
  then have "\<not> inj_on ?f {..n}" by (rule pigeonhole)
  then obtain a b where ab: "a \<le> n" "b \<le> n" "a \<noteq> b" "?f a = ?f b"
    by (auto simp: inj_on_def)
  show ?thesis
  proof (cases "a < b")
    case True
    with assms ab have "(p ^^ (b - a)) i = i" by (intro funpow_cancel [of n]) simp_all
    with True ab show ?thesis by (intro exI [of _ "b - a"]) simp
  next
    case False
    with ab have "b < a" by simp
    with assms ab have "(p ^^ (a - b)) i = i" by (intro funpow_cancel [of n]) simp_all
    with \<open>b < a\<close> ab show ?thesis by (intro exI [of _ "a - b"]) simp
  qed
qed

lemma orb_sym:
  assumes "perm_on n p" and "i < n" and "x \<in> orb p i"
  shows "i \<in> orb p x"
proof -
  from assms(3) obtain k where k: "x = (p ^^ k) i" by (auto simp: orb_def)
  from perm_returns [OF assms(1,2)] obtain L where L: "0 < L" "(p ^^ L) i = i" by blast
  have "(p ^^ (L * k)) i = (p ^^ ((L * k) mod L)) i"
    using funpow_mod_eq [OF L(2), of "L * k"] by simp
  then have ret: "(p ^^ (L * k)) i = i" by simp
  from L(1) have "k \<le> L * k" by simp
  then have "(p ^^ (L * k)) i = (p ^^ (L * k - k)) ((p ^^ k) i)"
    using funpow_add [of "L * k - k" k p] by simp
  with ret k have "i = (p ^^ (L * k - k)) x" by simp
  then show ?thesis unfolding orb_def by (rule range_eqI)
qed

lemma orb_eq:
  assumes "perm_on n p" and "i < n" and "x \<in> orb p i"
  shows "orb p x = orb p i"
proof
  show "orb p x \<subseteq> orb p i" by (rule orb_subset [OF assms(3)])
  show "orb p i \<subseteq> orb p x" by (rule orb_subset [OF orb_sym [OF assms]])
qed

lemma orb_bounded:
  assumes "perm_on n p" and "i < n"
  shows "orb p i = (\<lambda>k. (p ^^ k) i) ` {..<n}"
proof
  show "(\<lambda>k. (p ^^ k) i) ` {..<n} \<subseteq> orb p i" by (auto simp: orb_def)
  from perm_returns [OF assms] obtain L where L: "0 < L" "L \<le> n" "(p ^^ L) i = i" by blast
  show "orb p i \<subseteq> (\<lambda>k. (p ^^ k) i) ` {..<n}"
  proof
    fix x assume "x \<in> orb p i"
    then obtain k where "x = (p ^^ k) i" by (auto simp: orb_def)
    then have "x = (p ^^ (k mod L)) i" by (simp only: funpow_mod_eq [OF L(3)])
    moreover have "k mod L < L" using L(1) by (rule mod_less_divisor)
    then have "k mod L < n" using L(2) by (rule less_le_trans)
    ultimately show "x \<in> (\<lambda>k. (p ^^ k) i) ` {..<n}" by blast
  qed
qed

subsection \<open>The loops count the cycles\<close>

lemma perm_on_pfun:
  assumes "is_permutation perm"
  shows "perm_on (length perm) (pfun perm)"
  unfolding perm_on_def
proof (intro conjI inj_onI allI impI)
  from assms have v: "valid_entries perm" and d: "distinct perm"
    by (simp_all add: is_permutation_def)
  show "pfun perm i < length perm" if "i < length perm" for i
    using v that by (rule pfun_less)
  fix i j assume "i \<in> {..<length perm}" and "j \<in> {..<length perm}"
    and eq: "pfun perm i = pfun perm j"
  then have i: "i < length perm" and j: "j < length perm" by simp_all
  from eq have "int (pfun perm i) = int (pfun perm j)" by simp
  then have "perm ! i = perm ! j"
    using pfun_nth [OF v i] pfun_nth [OF v j] by simp
  with d i j show "i = j" by (simp add: nth_eq_iff_index_eq)
qed

lemma follow_orbit:
  assumes perm: "is_permutation perm" and len: "length visited = length perm"
    and i: "i < length perm" and marks: "marks = card (Vset visited)"
    and fresh: "\<And>k. (pfun perm ^^ k) i \<notin> Vset visited"
  shows "\<exists>v'. follow_cycle perm (visited, marks) (int i) = Inr (v', card (Vset v'))
           \<and> length v' = length perm \<and> Vset v' = Vset visited \<union> orb (pfun perm) i"
proof -
  let ?p = "pfun perm" and ?n = "length perm"
  let ?f = "\<lambda>m. (?p ^^ m) i"
  have p: "perm_on ?n ?p" by (rule perm_on_pfun [OF perm])
  from perm have v: "valid_entries perm" by (simp add: is_permutation_def)
  from follow_cycle_result [OF v len i marks]
  obtain v' K where r: "follow_cycle perm (visited, marks) (int i) = Inr (v', card (Vset v'))"
    and l: "length v' = ?n"
    and vs: "Vset v' = Vset visited \<union> ?f ` {..<K}"
    and mem: "?f K \<in> Vset v'"
    by blast
  from mem vs fresh [of K] obtain m where m: "m < K" "?f K = ?f m" by auto
  then have ret: "(?p ^^ (K - m)) i = i"
    using funpow_cancel [OF p i, of m K] by simp
  have "orb ?p i = ?f ` {..<K}"
  proof
    show "?f ` {..<K} \<subseteq> orb ?p i" by (auto simp: orb_def)
    show "orb ?p i \<subseteq> ?f ` {..<K}"
    proof
      fix x assume "x \<in> orb ?p i"
      then obtain k where "x = ?f k" by (auto simp: orb_def)
      then have "x = ?f (k mod (K - m))" by (simp only: funpow_mod_eq [OF ret])
      moreover have "k mod (K - m) < K - m" using m(1) by (intro mod_less_divisor) simp
      then have "k mod (K - m) < K" by simp
      ultimately show "x \<in> ?f ` {..<K}" by blast
    qed
  qed
  with r l vs show ?thesis by simp
qed

lemma orbits_Suc: "orb p ` {..<Suc i} = insert (orb p i) (orb p ` {..<i})"
  by (simp add: lessThan_Suc)

lemma parity_loop_cycles:
  assumes perm: "is_permutation perm" and len: "length visited = length perm"
    and marks: "marks = card (Vset visited)"
    and inv: "Vset visited = \<Union>(orb (pfun perm) ` {..<i})" and i: "i \<le> length perm"
  shows "\<exists>v'. parity_loop perm [i..<length perm] ((visited, marks), c)
           = Inr ((v', card (Vset v')),
                  c + int (norb (length perm) (pfun perm)) - int (norb i (pfun perm)))"
  using len marks inv i
proof (induction "length perm - i" arbitrary: i visited marks c)
  case 0
  then have "i = length perm" by simp
  with "0.prems"(2) show ?case by simp
next
  case (Suc d)
  let ?p = "pfun perm" and ?n = "length perm"
  have p: "perm_on ?n ?p" by (rule perm_on_pfun [OF perm])
  from Suc.hyps(2) have i: "i < ?n" and d: "d = ?n - Suc i" by simp_all
  have upt: "[i..<?n] = i # [Suc i..<?n]" using i by (rule upt_conv_Cons)
  show ?case
  proof (cases "visited ! i")
    case True
    with i Suc.prems(1) have "i \<in> Vset visited" by (simp add: Vset_def)
    with Suc.prems(3) obtain j where j: "j < i" "i \<in> orb ?p j" by auto
    with i have "orb ?p i = orb ?p j" by (intro orb_eq [OF p]) simp_all
    with j(1) have same: "orb ?p ` {..<Suc i} = orb ?p ` {..<i}"
      unfolding orbits_Suc by auto
    then have inv': "Vset visited = \<Union>(orb ?p ` {..<Suc i})"
      using Suc.prems(3) by simp
    from Suc.hyps(1) [OF d Suc.prems(1,2) inv', of c] i
    obtain v' where "parity_loop perm [Suc i..<?n] ((visited, marks), c)
        = Inr ((v', card (Vset v')), c + int (norb ?n ?p) - int (norb (Suc i) ?p))"
      by auto
    moreover have "norb (Suc i) ?p = norb i ?p"
      using same by (simp add: norb_def)
    ultimately show ?thesis
      using True upt by simp
  next
    case False
    with i Suc.prems(1) have notin: "i \<notin> Vset visited" by (simp add: Vset_def)
    have fresh: "(?p ^^ k) i \<notin> Vset visited" for k
    proof
      assume "(?p ^^ k) i \<in> Vset visited"
      with Suc.prems(3) obtain j where j: "j < i" "(?p ^^ k) i \<in> orb ?p j" by auto
      have "(?p ^^ k) i \<in> orb ?p i" by (auto simp: orb_def)
      then have "orb ?p ((?p ^^ k) i) = orb ?p i" using i by (intro orb_eq [OF p])
      moreover from j i have "orb ?p ((?p ^^ k) i) = orb ?p j" by (intro orb_eq [OF p]) simp_all
      ultimately have "i \<in> orb ?p j" using orb_self [of i ?p] by simp
      with j(1) Suc.prems(3) have "i \<in> Vset visited" by auto
      with notin show False by simp
    qed
    from follow_orbit [OF perm Suc.prems(1) i Suc.prems(2) fresh]
    obtain v1 where f: "follow_cycle perm (visited, marks) (int i) = Inr (v1, card (Vset v1))"
      and l1: "length v1 = ?n" and vs1: "Vset v1 = Vset visited \<union> orb ?p i"
      by blast
    from vs1 Suc.prems(3) have inv': "Vset v1 = \<Union>(orb ?p ` {..<Suc i})"
      unfolding orbits_Suc by auto
    from Suc.hyps(1) [OF d l1 refl inv', of "c + 1"] i
    obtain v' where r: "parity_loop perm [Suc i..<?n] ((v1, card (Vset v1)), c + 1)
        = Inr ((v', card (Vset v')), c + 1 + int (norb ?n ?p) - int (norb (Suc i) ?p))"
      by auto
    have "orb ?p i \<notin> orb ?p ` {..<i}"
    proof
      assume "orb ?p i \<in> orb ?p ` {..<i}"
      then obtain j where "j < i" "orb ?p i = orb ?p j" by auto
      with orb_self [of i ?p] Suc.prems(3) have "i \<in> Vset visited" by auto
      with notin show False by simp
    qed
    then have "norb (Suc i) ?p = Suc (norb i ?p)"
      unfolding norb_def orbits_Suc by simp
    with r f False upt show ?thesis by simp
  qed
qed

lemma parity_run_cycles:
  assumes "is_permutation perm"
  shows "\<exists>v. parity_run perm
           = Inr ((v, card (Vset v)), int (norb (length perm) (pfun perm)))"
proof -
  have "norb 0 (pfun perm) = 0" by (simp add: norb_def)
  with parity_loop_cycles [OF assms, of "replicate (length perm) False" 0 0 0]
  show ?thesis by (simp add: parity_run_def Let_def Vset_replicate)
qed

lemma get_permutation_parity_norb:
  assumes "is_permutation perm"
  shows "get_permutation_parity perm
           = Inr ((int (length perm) - int (norb (length perm) (pfun perm))) mod 2)"
  using parity_run_cycles [OF assms] by (auto simp: get_permutation_parity_def)

subsection \<open>Removing the last point of a permutation\<close>

text \<open>
  \<open>contract n p\<close> takes the point \<open>n\<close> out of its cycle: the point that \<open>p\<close> sends to
  \<open>n\<close> is sent to \<open>p n\<close>. \<open>swp a b p\<close> exchanges the values at \<open>a\<close> and \<open>b\<close>.
\<close>

definition contract :: "nat \<Rightarrow> (nat \<Rightarrow> nat) \<Rightarrow> nat \<Rightarrow> nat" where
  "contract n p i = (if p i = n then p n else p i)"

definition swp :: "nat \<Rightarrow> nat \<Rightarrow> (nat \<Rightarrow> nat) \<Rightarrow> nat \<Rightarrow> nat" where
  "swp a b p i = (if i = a then p b else if i = b then p a else p i)"

lemma funpow_cong_on:
  assumes "perm_on n p" and "\<And>j. j < n \<Longrightarrow> q j = p j" and "i < n"
  shows "(q ^^ k) i = (p ^^ k) i"
proof (induction k)
  case 0
  show ?case by simp
next
  case (Suc k)
  have "(p ^^ k) i < n" using assms(1,3) by (rule funpow_less)
  then have "q ((p ^^ k) i) = p ((p ^^ k) i)" by (rule assms(2))
  with Suc show ?case by simp
qed

lemma norb_cong:
  assumes "perm_on n p" and "\<And>j. j < n \<Longrightarrow> q j = p j"
  shows "norb n q = norb n p"
proof -
  have "orb q i = orb p i" if "i < n" for i
    unfolding orb_def using funpow_cong_on [OF assms that] by simp
  then have "orb q ` {..<n} = orb p ` {..<n}" by (intro image_cong) simp_all
  then show ?thesis by (simp add: norb_def)
qed

lemma perm_on_contract:
  assumes "perm_on (Suc n) p"
  shows "perm_on n (contract n p)"
  unfolding perm_on_def
proof (intro conjI inj_onI allI impI)
  have last: "p i \<noteq> p n" if "i < n" for i
    using perm_on_inj [OF assms, of i n] that by auto
  have le: "p i \<le> n" if "i \<le> n" for i
    using perm_on_less [OF assms, of i] that by simp
  show "contract n p i < n" if "i < n" for i
  proof (cases "p i = n")
    case True
    with last [OF that] le [of n] show ?thesis by (simp add: contract_def)
  next
    case False
    with le [of i] that show ?thesis by (simp add: contract_def)
  qed
  fix i j assume "i \<in> {..<n}" "j \<in> {..<n}" and eq: "contract n p i = contract n p j"
  then have i: "i < n" and j: "j < n" by simp_all
  have "p i = p j"
  proof (cases "p i = n")
    case True
    show ?thesis
    proof (cases "p j = n")
      case True
      with \<open>p i = n\<close> show ?thesis by simp
    next
      case False
      with True eq have "p n = p j" by (simp add: contract_def)
      with last [OF j] show ?thesis by simp
    qed
  next
    case False
    show ?thesis
    proof (cases "p j = n")
      case True
      with False eq have "p i = p n" by (simp add: contract_def)
      with last [OF i] show ?thesis by simp
    next
      case pj: False
      with False eq show ?thesis by (simp add: contract_def)
    qed
  qed
  moreover from i j have "i < Suc n" and "j < Suc n" by simp_all
  ultimately show "i = j" using perm_on_inj [OF assms] by blast
qed

lemma orb_contract:
  assumes p: "perm_on (Suc n) p" and i: "i < n"
  shows "orb (contract n p) i = orb p i - {n}"
proof
  let ?c = "contract n p"
  have last: "p x \<noteq> p n" if "x < n" for x
    using perm_on_inj [OF p, of x n] that by auto
  have fwd: "(?c ^^ k) i \<in> orb p i - {n}" for k
  proof (induction k)
    case 0
    with i show ?case by (simp add: orb_self)
  next
    case (Suc k)
    let ?x = "(?c ^^ k) i"
    from Suc have x: "?x \<in> orb p i" "?x \<noteq> n" by simp_all
    have "?x < Suc n" using orb_less [OF p _ x(1)] i by simp
    with x(2) have xn: "?x < n" by simp
    have "?c ?x \<in> orb p i - {n}"
    proof (cases "p ?x = n")
      case True
      then have "?c ?x = p (p ?x)" by (simp add: contract_def)
      moreover have "p (p ?x) \<in> orb p i" using x(1) by (intro orb_step)
      moreover have "p (p ?x) \<noteq> n" using last [OF xn] True by simp
      ultimately show ?thesis by simp
    next
      case False
      then have "?c ?x = p ?x" by (simp add: contract_def)
      with False orb_step [OF x(1)] show ?thesis by simp
    qed
    then show ?case by simp
  qed
  show "orb ?c i \<subseteq> orb p i - {n}"
  proof
    fix x assume "x \<in> orb ?c i"
    then obtain k where "x = (?c ^^ k) i" by (auto simp: orb_def)
    with fwd [of k] show "x \<in> orb p i - {n}" by simp
  qed
  have bwd: "((p ^^ k) i \<noteq> n \<longrightarrow> (p ^^ k) i \<in> orb ?c i)
           \<and> ((p ^^ k) i = n \<longrightarrow> p n \<in> orb ?c i)" for k
  proof (induction k)
    case 0
    with i show ?case by (simp add: orb_self)
  next
    case (Suc k)
    let ?y = "(p ^^ k) i"
    have step: "(p ^^ Suc k) i = p ?y" by simp
    show ?case
    proof (cases "?y = n")
      case True
      with Suc have "p n \<in> orb ?c i" by simp
      with True show ?thesis unfolding step by auto
    next
      case False
      with Suc have y: "?y \<in> orb ?c i" by simp
      show ?thesis
      proof (cases "p ?y = n")
        case True
        then have "?c ?y = p n" by (simp add: contract_def)
        with orb_step [OF y] True show ?thesis unfolding step by simp
      next
        case pn: False
        then have "?c ?y = p ?y" by (simp add: contract_def)
        with orb_step [OF y] pn show ?thesis unfolding step by simp
      qed
    qed
  qed
  show "orb p i - {n} \<subseteq> orb ?c i"
  proof
    fix x assume "x \<in> orb p i - {n}"
    then obtain k where "x = (p ^^ k) i" "x \<noteq> n" by (auto simp: orb_def)
    with bwd [of k] show "x \<in> orb ?c i" by simp
  qed
qed

lemma orb_fixed: "p n = n \<Longrightarrow> orb p n = {n}"
proof -
  assume "p n = n"
  then have "(p ^^ k) n = n" for k by (induction k) simp_all
  then show ?thesis by (auto simp: orb_def)
qed

lemma norb_contract:
  assumes p: "perm_on (Suc n) p"
  shows "norb (Suc n) p = norb n (contract n p) + (if p n = n then 1 else 0)"
proof -
  let ?c = "contract n p"
  let ?O = "orb p ` {..<n}"
  have "inj_on (\<lambda>S. S - {n}) ?O"
  proof (rule inj_onI)
    fix S T assume "S \<in> ?O" "T \<in> ?O" and eq: "S - {n} = T - {n}"
    then obtain i j where i: "i < n" "S = orb p i" and j: "j < n" "T = orb p j" by auto
    from i have "i \<in> S - {n}" by (simp add: orb_self)
    with eq j have "i \<in> orb p j" by simp
    with j(1) have "orb p i = orb p j" by (intro orb_eq [OF p]) simp_all
    with i j show "S = T" by simp
  qed
  then have "card ((\<lambda>S. S - {n}) ` ?O) = card ?O" by (rule card_image)
  moreover have "orb ?c ` {..<n} = (\<lambda>S. S - {n}) ` ?O"
    unfolding image_image by (intro image_cong refl) (simp add: orb_contract [OF p])
  ultimately have c: "norb n ?c = card ?O" by (simp add: norb_def)
  have split: "norb (Suc n) p = card (insert (orb p n) ?O)"
    by (simp add: norb_def orbits_Suc)
  show ?thesis
  proof (cases "p n = n")
    case True
    have "orb p n \<notin> ?O"
    proof
      assume "orb p n \<in> ?O"
      then obtain i where "i < n" "orb p n = orb p i" by auto
      with orb_self [of i p] orb_fixed [of p n] True show False by simp
    qed
    with split c True show ?thesis by simp
  next
    case False
    with perm_on_less [OF p, of n] have lt: "p n < n" by simp
    have "p n \<in> orb p n" by (intro orb_step orb_self)
    then have "orb p (p n) = orb p n" by (intro orb_eq [OF p]) simp_all
    with lt have "orb p n \<in> ?O" by (metis image_eqI lessThan_iff)
    then have "insert (orb p n) ?O = ?O" by auto
    with split c False show ?thesis by simp
  qed
qed

subsection \<open>Exchanging two values changes the number of cycles by an odd amount\<close>

lemma swp_commute: "swp a b p = swp b a p"
  by (rule ext) (simp add: swp_def)

lemma perm_on_swp:
  assumes p: "perm_on n p" and a: "a < n" and b: "b < n"
  shows "perm_on n (swp a b p)"
proof -
  define t where "t i = (if i = a then b else if i = b then a else i)" for i
  have q: "swp a b p i = p (t i)" for i by (simp add: swp_def t_def)
  have t_less: "t i < n" if "i < n" for i using that a b by (simp add: t_def)
  have t_inv: "t (t i) = i" for i by (simp add: t_def)
  show ?thesis
    unfolding perm_on_def
  proof (intro conjI inj_onI allI impI)
    show "swp a b p i < n" if "i < n" for i
      unfolding q using p t_less [OF that] by (rule perm_on_less)
    fix i j assume "i \<in> {..<n}" "j \<in> {..<n}" and eq: "swp a b p i = swp a b p j"
    then have "t i < n" "t j < n" by (simp_all add: t_less)
    moreover from eq have "p (t i) = p (t j)" unfolding q .
    ultimately have "t i = t j" by (rule perm_on_inj [OF p])
    then have "t (t i) = t (t j)" by simp
    then show "i = j" unfolding t_inv .
  qed
qed

lemma perm_on_surj:
  assumes "perm_on n p" and "y < n"
  shows "\<exists>x<n. p x = y"
proof -
  from assms(1) have "p ` {..<n} \<subseteq> {..<n}" and "inj_on p {..<n}"
    by (auto simp: perm_on_def)
  then have "p ` {..<n} = {..<n}"
    by (intro endo_inj_surj) simp_all
  with assms(2) have "y \<in> p ` {..<n}" by simp
  then show ?thesis by auto
qed

text \<open>The case where one of the two positions is the last one.\<close>

lemma swap_parity_last:
  assumes p: "perm_on (Suc m) p" and a: "a < m"
    and IH: "\<And>p a b. perm_on m p \<Longrightarrow> a < m \<Longrightarrow> b < m \<Longrightarrow> a \<noteq> b
                \<Longrightarrow> odd (norb m (swp a b p) + norb m p)"
  shows "odd (norb (Suc m) (swp a m p) + norb (Suc m) p)"
proof -
  let ?q = "swp a m p"
  let ?p' = "contract m p" and ?q' = "contract m ?q"
  have q: "perm_on (Suc m) ?q" using p a by (intro perm_on_swp) simp_all
  have p': "perm_on m ?p'" by (rule perm_on_contract [OF p])
  have q': "perm_on m ?q'" by (rule perm_on_contract [OF q])
  have inj: "p i \<noteq> p j" if "i \<le> m" "j \<le> m" "i \<noteq> j" for i j
    using perm_on_inj [OF p, of i j] that by auto
  have qa: "?q a = p m" and qm: "?q m = p a" using a by (simp_all add: swp_def)
  have qi: "?q i = p i" if "i \<noteq> a" "i \<noteq> m" for i using that by (simp add: swp_def)
  have np: "norb (Suc m) p = norb m ?p' + (if p m = m then 1 else 0)"
    by (rule norb_contract [OF p])
  have nq: "norb (Suc m) ?q = norb m ?q' + (if p a = m then 1 else 0)"
    using norb_contract [OF q] by (simp add: qm)
  consider (fixed) "p m = m" | (pre) "p a = m" | (other) "p m \<noteq> m" "p a \<noteq> m"
    by blast
  then show ?thesis
  proof cases
    case fixed
    then have pa: "p a \<noteq> m" using inj [of a m] a by simp
    have "?q' i = ?p' i" if "i < m" for i
    proof (cases "i = a")
      case True
      with fixed pa show ?thesis by (simp add: contract_def qa qm)
    next
      case False
      with that have "?q i = p i" by (intro qi) simp_all
      moreover have "p i \<noteq> m" using inj [of i m] that fixed by simp
      ultimately show ?thesis by (simp add: contract_def)
    qed
    then have "norb m ?q' = norb m ?p'" by (rule norb_cong [OF p'])
    with np nq fixed pa show ?thesis by simp
  next
    case pre
    then have pm: "p m \<noteq> m" using inj [of a m] a by simp
    have "?q' i = ?p' i" if "i < m" for i
    proof (cases "i = a")
      case True
      with pre pm show ?thesis by (simp add: contract_def qa)
    next
      case False
      with that have "?q i = p i" by (intro qi) simp_all
      moreover have "p i \<noteq> m" using inj [of i a] that a False pre by simp
      ultimately show ?thesis by (simp add: contract_def)
    qed
    then have "norb m ?q' = norb m ?p'" by (rule norb_cong [OF p'])
    with np nq pre pm show ?thesis by simp
  next
    case other
    from perm_on_surj [OF p, of m] obtain c where c: "c < Suc m" "p c = m" by auto
    with other have cm: "c < m" and ca: "c \<noteq> a" by (auto simp: less_Suc_eq)
    let ?r = "swp a c ?p'"
    have "?q' i = ?r i" if "i < m" for i
    proof -
      consider "i = a" | "i = c" | "i \<noteq> a" "i \<noteq> c" by blast
      then show ?thesis
      proof cases
        case 1
        with other c ca show ?thesis by (simp add: contract_def swp_def)
      next
        case 2
        with other c ca cm show ?thesis by (simp add: contract_def swp_def)
      next
        case 3
        have "p i \<noteq> m" using inj [of i c] that cm 3 c(2) by simp
        with 3 that show ?thesis by (simp add: contract_def swp_def)
      qed
    qed
    moreover have "perm_on m ?r" using p' a cm by (rule perm_on_swp)
    ultimately have "norb m ?q' = norb m ?r" by (intro norb_cong) simp_all
    moreover have "odd (norb m ?r + norb m ?p')"
      using p' a cm ca by (intro IH) simp_all
    ultimately show ?thesis using np nq other by simp
  qed
qed

lemma swap_parity:
  "perm_on n p \<Longrightarrow> a < n \<Longrightarrow> b < n \<Longrightarrow> a \<noteq> b \<Longrightarrow> odd (norb n (swp a b p) + norb n p)"
proof (induction n arbitrary: p a b)
  case 0
  then show ?case by simp
next
  case (Suc m)
  have IH: "odd (norb m (swp a b p) + norb m p)"
    if "perm_on m p" "a < m" "b < m" "a \<noteq> b" for p a b
    using that by (rule Suc.IH)
  consider (inner) "a < m" "b < m" | (b_last) "a < m" "b = m" | (a_last) "a = m" "b < m"
    using Suc.prems(2,3,4) by linarith
  then show ?case
  proof cases
    case inner
    let ?q = "swp a b p"
    have q: "perm_on (Suc m) ?q" using Suc.prems(1,2,3) by (rule perm_on_swp)
    have "contract m ?q = swp a b (contract m p)"
      using inner by (intro ext) (simp add: contract_def swp_def)
    moreover have "?q m = p m" using inner by (simp add: swp_def)
    ultimately have "norb (Suc m) ?q = norb m (swp a b (contract m p)) + (if p m = m then 1 else 0)"
      using norb_contract [OF q] by simp
    moreover have "norb (Suc m) p = norb m (contract m p) + (if p m = m then 1 else 0)"
      by (rule norb_contract [OF Suc.prems(1)])
    moreover have "odd (norb m (swp a b (contract m p)) + norb m (contract m p))"
      using perm_on_contract [OF Suc.prems(1)] inner Suc.prems(4) by (rule IH)
    ultimately show ?thesis by simp
  next
    case b_last
    with swap_parity_last [OF Suc.prems(1) b_last(1) IH] show ?thesis by simp
  next
    case a_last
    with swap_parity_last [OF Suc.prems(1) a_last(2) IH] show ?thesis
      by (simp add: swp_commute [of m b])
  qed
qed

subsection \<open>Exchanging two entries of the list flips the parity\<close>

lemma is_permutation_swap:
  assumes "is_permutation xs" and "a < length xs" and "b < length xs"
  shows "is_permutation (xs[a := xs ! b, b := xs ! a])"
proof -
  let ?ys = "xs[a := xs ! b, b := xs ! a]"
  have m: "mset ?ys = mset xs" using assms(3,2) by (rule mset_swap)
  have l: "length ?ys = length xs" by simp
  from assms(1) have "distinct xs" and "\<forall>x \<in> set xs. 0 \<le> x \<and> x < int (length xs)"
    by (simp_all add: is_permutation_def valid_entries_def list_all_iff)
  with mset_eq_imp_distinct_iff [OF m] mset_eq_setD [OF m] l
  show ?thesis
    by (simp add: is_permutation_def valid_entries_def list_all_iff)
qed

lemma pfun_swap:
  assumes "a < length xs" and "b < length xs"
  shows "pfun (xs[a := xs ! b, b := xs ! a]) i = swp a b (pfun xs) i"
  using assms by (simp add: pfun_def swp_def nth_list_update)

lemma parity_values:
  assumes "is_permutation xs"
  shows "\<exists>r. get_permutation_parity xs = Inr r \<and> (r = 0 \<or> r = 1)"
proof -
  have "(int (length xs) - int (norb (length xs) (pfun xs))) mod 2 \<in> {0, 1}" by auto
  with get_permutation_parity_norb [OF assms] show ?thesis by auto
qed

lemma odd_sum_flips: "odd (x + y) \<Longrightarrow> (n - x) mod 2 = 1 - (n - y) mod 2" for x y n :: int
  by presburger

lemma parity_swap:
  assumes perm: "is_permutation xs" and a: "a < length xs" and b: "b < length xs"
    and ab: "a \<noteq> b"
  shows "\<exists>r. get_permutation_parity xs = Inr r
           \<and> get_permutation_parity (xs[a := xs ! b, b := xs ! a]) = Inr (1 - r)
           \<and> (r = 0 \<or> r = 1)"
proof -
  let ?ys = "xs[a := xs ! b, b := xs ! a]" and ?n = "length xs"
  let ?c = "norb ?n (pfun xs)" and ?c' = "norb ?n (pfun ?ys)"
  have p: "perm_on ?n (pfun xs)" by (rule perm_on_pfun [OF perm])
  have q: "perm_on ?n (swp a b (pfun xs))" using p a b by (rule perm_on_swp)
  have "?c' = norb ?n (swp a b (pfun xs))"
    using pfun_swap [OF a b] by (intro norb_cong [OF q]) simp
  with swap_parity [OF p a b ab] have odd: "odd (?c' + ?c)" by simp
  have ys: "is_permutation ?ys" by (rule is_permutation_swap [OF perm a b])
  have r: "get_permutation_parity xs = Inr ((int ?n - int ?c) mod 2)"
    by (rule get_permutation_parity_norb [OF perm])
  have "get_permutation_parity ?ys = Inr ((int (length ?ys) - int ?c') mod 2)"
    using get_permutation_parity_norb [OF ys] by simp
  then have r': "get_permutation_parity ?ys = Inr ((int ?n - int ?c') mod 2)" by simp
  from odd have "odd (int ?c' + int ?c)" by (simp flip: of_nat_add)
  then have "(int ?n - int ?c') mod 2 = 1 - (int ?n - int ?c) mod 2"
    by (rule odd_sum_flips)
  moreover have "(int ?n - int ?c) mod 2 = 0 \<or> (int ?n - int ?c) mod 2 = 1"
    by presburger
  ultimately show ?thesis using r r' by simp
qed

subsection \<open>The number of cycles, computed\<close>

text \<open>
  The cycle decomposition in the words of the specification: the cycle of \<open>i\<close> is what
  following \<open>i\<close> through its images reaches (\<open>n\<close> steps are enough), and
  \<open>cycle_count\<close> is the number of different cycles.
\<close>

definition cycle_of :: "int list \<Rightarrow> nat \<Rightarrow> nat set" where
  "cycle_of perm i = set (map (\<lambda>k. (pfun perm ^^ k) i) [0..<length perm])"

definition cycle_count :: "int list \<Rightarrow> nat" where
  "cycle_count perm = card (set (map (cycle_of perm) [0..<length perm]))"

lemma cycle_of_orb:
  assumes "is_permutation perm" and "i < length perm"
  shows "cycle_of perm i = orb (pfun perm) i"
  using orb_bounded [OF perm_on_pfun [OF assms(1)] assms(2)]
  by (simp add: cycle_of_def atLeast0LessThan)

lemma cycle_count_norb:
  assumes "is_permutation perm"
  shows "cycle_count perm = norb (length perm) (pfun perm)"
proof -
  have "cycle_of perm ` {..<length perm} = orb (pfun perm) ` {..<length perm}"
    by (intro image_cong refl) (simp add: cycle_of_orb [OF assms])
  then show ?thesis by (simp add: cycle_count_def norb_def atLeast0LessThan)
qed


lemma cycle_count_example: "cycle_count [1, 2, 0, 4, 3] = 2"
  by code_simp

subsection \<open>The sign of a permutation\<close>

text \<open>
  The standard sign: a permutation is even or odd as the number of its inversions, the
  pairs of positions \<open>i < j\<close> with \<open>perm[i] > perm[j]\<close>, is even or odd.
\<close>

fun inversions :: "int list \<Rightarrow> nat" where
  "inversions [] = 0"
| "inversions (x # xs) = length (filter (\<lambda>y. y < x) xs) + inversions xs"

lemma inversions_swap_adjacent:
  "y < x \<Longrightarrow> inversions (A @ x # y # B) = Suc (inversions (A @ y # x # B))"
  by (induction A) auto

lemma inversions_sorted: "sorted xs \<Longrightarrow> inversions xs = 0"
proof (induction xs)
  case Nil
  show ?case by simp
next
  case (Cons x xs)
  then have "\<forall>y \<in> set xs. \<not> y < x" by auto
  then have "filter (\<lambda>y. y < x) xs = []" by (simp add: filter_empty_conv)
  with Cons show ?case by simp
qed

lemma unsorted_descent:
  fixes xs :: "int list"
  shows "\<not> sorted xs \<Longrightarrow> \<exists>A x y B. xs = A @ x # y # B \<and> y < x"
proof (induction xs)
  case Nil
  then show ?case by simp
next
  case (Cons a rest)
  show ?case
  proof (cases rest)
    case Nil
    with Cons.prems show ?thesis by simp
  next
    case tail: (Cons b r)
    show ?thesis
    proof (cases "b < a")
      case True
      with tail have "a # rest = [] @ a # b # r \<and> b < a" by simp
      then show ?thesis by blast
    next
      case False
      then have "a \<le> b" by simp
      moreover have "\<not> sorted (a # b # r)" using Cons.prems tail by simp
      ultimately have "\<not> sorted (b # r)" by (simp only: sorted2 simp_thms)
      with tail have "\<not> sorted rest" by simp
      from Cons.IH [OF this] obtain A x y B where "rest = A @ x # y # B" "y < x" by blast
      then have "a # rest = (a # A) @ x # y # B \<and> y < x" by simp
      then show ?thesis by blast
    qed
  qed
qed

lemma sorted_permutation_identity:
  assumes "is_permutation xs" and "sorted xs"
  shows "xs = map int [0..<length xs]"
proof -
  from assms(1) have range: "\<forall>x \<in> set xs. 0 \<le> x" and d: "distinct xs"
    by (auto simp: is_permutation_def valid_entries_def list_all_iff)
  from range have "map int (map nat xs) = xs"
    by (simp add: map_idI)
  then have "mset xs = image_mset int (mset (map nat xs))"
    by (metis mset_map)
  also have "\<dots> = image_mset int (mset [0..<length xs])"
    by (simp only: is_permutation_mset [OF assms(1)])
  also have "\<dots> = mset (map int [0..<length xs])"
    by (simp only: mset_map)
  finally have "set xs = set (map int [0..<length xs])"
    by (rule mset_eq_setD)
  moreover have "sorted (map int [0..<length xs])"
    by (simp add: sorted_map sorted_wrt_iff_nth_less)
  moreover have "distinct (map int [0..<length xs])"
    by (simp add: distinct_map)
  ultimately show ?thesis
    using assms(2) d by (intro sorted_distinct_set_unique)
qed

lemma norb_identity:
  assumes "\<And>i. i < n \<Longrightarrow> p i = i"
  shows "norb n p = n"
proof -
  have "orb p ` {..<n} = (\<lambda>i. {i}) ` {..<n}"
    by (intro image_cong refl) (simp add: orb_fixed assms)
  moreover have "card ((\<lambda>i. {i}) ` {..<n}) = card {..<n}"
    by (intro card_image) (simp add: inj_on_def)
  ultimately show ?thesis by (simp add: norb_def)
qed

lemma parity_step: "even (n + c' + i) \<Longrightarrow> odd (c' + c) \<Longrightarrow> even (n + c + Suc i)" for n c c' i :: nat
  by presburger

lemma cycles_and_inversions:
  "is_permutation xs \<Longrightarrow> even (length xs + norb (length xs) (pfun xs) + inversions xs)"
proof (induction "inversions xs" arbitrary: xs rule: less_induct)
  case less
  show ?case
  proof (cases "sorted xs")
    case True
    from sorted_permutation_identity [OF less.prems True]
    have "xs ! i = int i" if "i < length xs" for i
      using that by (metis add_0 length_map length_upt minus_nat.diff_0 nth_map nth_upt)
    then have "pfun xs i = i" if "i < length xs" for i
      using that by (simp add: pfun_def)
    then have "norb (length xs) (pfun xs) = length xs" by (rule norb_identity)
    with inversions_sorted [OF True] show ?thesis by simp
  next
    case False
    from unsorted_descent [OF this] obtain A x y B where xs: "xs = A @ x # y # B" and yx: "y < x"
      by blast
    let ?a = "length A"
    let ?ys = "xs[?a := xs ! Suc ?a, Suc ?a := xs ! ?a]"
    have ys: "?ys = A @ y # x # B" by (simp add: xs nth_append list_update_append)
    have a: "?a < length xs" "Suc ?a < length xs" by (simp_all add: xs)
    have inv: "inversions xs = Suc (inversions ?ys)"
      unfolding ys unfolding xs using yx by (rule inversions_swap_adjacent)
    have perm: "is_permutation ?ys" by (rule is_permutation_swap [OF less.prems a])
    have "inversions ?ys < inversions xs" using inv by simp
    from less.hyps [OF this perm]
    have IH: "even (length xs + norb (length xs) (pfun ?ys) + inversions ?ys)" by simp
    let ?p = "pfun xs"
    have p: "perm_on (length xs) ?p" by (rule perm_on_pfun [OF less.prems])
    have q: "perm_on (length xs) (swp ?a (Suc ?a) ?p)" using p a by (rule perm_on_swp)
    have "norb (length xs) (pfun ?ys) = norb (length xs) (swp ?a (Suc ?a) ?p)"
      using pfun_swap [OF a] by (intro norb_cong [OF q]) simp
    moreover have "odd (norb (length xs) (swp ?a (Suc ?a) ?p) + norb (length xs) ?p)"
      using p a by (rule swap_parity) simp
    ultimately have "odd (norb (length xs) (pfun ?ys) + norb (length xs) ?p)" by simp
    with IH show ?thesis unfolding inv by (rule parity_step)
  qed
qed

lemma parity_is_sign:
  assumes "is_permutation xs"
  shows "get_permutation_parity xs = Inr (int (inversions xs) mod 2)"
proof -
  let ?n = "length xs" and ?c = "norb (length xs) (pfun xs)"
  from cycles_and_inversions [OF assms]
  have "even (int ?n + int ?c + int (inversions xs))"
    by (simp flip: of_nat_add)
  then have "(int ?n - int ?c) mod 2 = int (inversions xs) mod 2"
    by presburger
  with get_permutation_parity_norb [OF assms] show ?thesis by simp
qed

subsection \<open>The claims on the parity\<close>

text \<open>
  C7. On a permutation of \<open>[0, n)\<close> \<open>get_permutation_parity\<close> returns \<open>(n - c) mod 2\<close>,
  where \<open>c\<close> is the number of cycles of the permutation; this is the sign of the
  permutation: 0 when the number of inversions is even, 1 when it is odd.
\<close>

theorem parity_by_cycle_decomposition:
  assumes "is_permutation perm"
  shows "get_permutation_parity perm
           = Inr ((int (length perm) - int (cycle_count perm)) mod 2)
       \<and> get_permutation_parity perm = Inr (int (inversions perm) mod 2)
       \<and> (get_permutation_parity perm = Inr 0 \<longleftrightarrow> even (inversions perm))
       \<and> (get_permutation_parity perm = Inr 1 \<longleftrightarrow> odd (inversions perm))"
proof -
  have c: "get_permutation_parity perm
      = Inr ((int (length perm) - int (cycle_count perm)) mod 2)"
    using get_permutation_parity_norb [OF assms] by (simp only: cycle_count_norb [OF assms])
  have s: "get_permutation_parity perm = Inr (int (inversions perm) mod 2)"
    by (rule parity_is_sign [OF assms])
  have "int (inversions perm) mod 2 = 0 \<longleftrightarrow> even (inversions perm)"
    and "int (inversions perm) mod 2 = 1 \<longleftrightarrow> odd (inversions perm)"
    by presburger+
  with c s show ?thesis by simp
qed

theorem parity_by_cycle_decomposition_witness:
  "is_permutation [1, 2, 0, 4, 3] \<and> get_permutation_parity [1, 2, 0, 4, 3] = Inr 1
   \<and> cycle_count [1, 2, 0, 4, 3] = 2 \<and> inversions [1, 2, 0, 4, 3] = 3"
proof -
  have p: "is_permutation [1, 2, 0, 4, 3]"
    by (simp add: is_permutation_def valid_entries_def)
  have i: "inversions [1, 2, 0, 4, 3] = 3"
    by simp
  have c: "cycle_count [1, 2, 0, 4, 3] = 2"
    by (rule cycle_count_example)
  from parity_by_cycle_decomposition [OF p]
  have "get_permutation_parity [1, 2, 0, 4, 3] = Inr (int (inversions [1, 2, 0, 4, 3]) mod 2)"
    by blast
  then have "get_permutation_parity [1, 2, 0, 4, 3] = Inr 1"
    by (simp only: i) simp
  with p i c show ?thesis by simp
qed

text \<open>
  C2. In the state generated from valid draws the corner permutation and the edge
  permutation have the same parity (as \<open>get_permutation_parity\<close> computes it, and as
  the sign). Exchanging two entries of the shuffled edge permutation turns its parity
  \<open>q\<close> into \<open>1 - q\<close>; the generator exchanges the first two when the parities differ.
\<close>

theorem generated_parities_agree:
  assumes "valid_draws d"
  shows "\<exists>s r. generate_state d = Inr s
           \<and> is_permutation (cp s) \<and> is_permutation (ep s)
           \<and> get_permutation_parity (cp s) = Inr r \<and> get_permutation_parity (ep s) = Inr r
           \<and> even (inversions (cp s)) = even (inversions (ep s))
           \<and> (\<forall>a<12. \<forall>b<12. a \<noteq> b \<longrightarrow>
                 (\<exists>q. get_permutation_parity (shuffled_ep d) = Inr q
                    \<and> get_permutation_parity
                         ((shuffled_ep d)[a := shuffled_ep d ! b, b := shuffled_ep d ! a])
                       = Inr (1 - q)))"
proof -
  let ?cp = "shuffled_cp d" and ?ep = "shuffled_ep d"
  from assms have pc: "is_permutation ?cp" and pe: "is_permutation ?ep"
    and le: "length ?ep = 12"
    by (simp_all add: valid_draws_def)
  from generate_state_valid [OF assms] obtain rc re :: int where
    rc: "get_permutation_parity ?cp = Inr rc" and re: "get_permutation_parity ?ep = Inr re"
    and g: "generate_state d = Inr \<lparr>cp = ?cp,
               co = randint_co d @ [(3 - (sum_list (randint_co d) mod 3)) mod 3],
               ep = (if rc \<noteq> re then swap_first_two ?ep else ?ep),
               eo = randint_eo d @ [(2 - (sum_list (randint_eo d) mod 2)) mod 2]\<rparr>"
    by blast
  let ?ep' = "if rc \<noteq> re then swap_first_two ?ep else ?ep"
  let ?s = "\<lparr>cp = ?cp, co = randint_co d @ [(3 - (sum_list (randint_co d) mod 3)) mod 3],
               ep = ?ep', eo = randint_eo d @ [(2 - (sum_list (randint_eo d) mod 2)) mod 2]\<rparr>"
  from parity_values [OF pc] rc have rc01: "rc = 0 \<or> rc = 1" by auto
  have swaps: "\<exists>q. get_permutation_parity ?ep = Inr q
      \<and> get_permutation_parity (?ep[a := ?ep ! b, b := ?ep ! a]) = Inr (1 - q)"
    if "a < 12" "b < 12" "a \<noteq> b" for a b
    using parity_swap [OF pe, of a b] that le by auto
  have pe': "is_permutation ?ep'"
    using pe le swap_first_two_permutation(1) [of ?ep] by simp
  have re': "get_permutation_parity ?ep' = Inr rc"
  proof (cases "rc = re")
    case True
    with re show ?thesis by simp
  next
    case False
    from parity_swap [OF pe, of 0 1] le re
    have "get_permutation_parity (swap_first_two ?ep) = Inr (1 - re)" and "re = 0 \<or> re = 1"
      by (auto simp: swap_first_two_def)
    with False rc01 show ?thesis by auto
  qed
  have signs: "even (inversions ?cp) = even (inversions ?ep')"
  proof -
    from parity_is_sign [OF pc] rc have "int (inversions ?cp) mod 2 = rc" by simp
    moreover from parity_is_sign [OF pe'] re' have "int (inversions ?ep') mod 2 = rc" by simp
    ultimately have "int (inversions ?cp) mod 2 = int (inversions ?ep') mod 2" by simp
    then show ?thesis by presburger
  qed
  have "generate_state d = Inr ?s \<and> is_permutation (cp ?s) \<and> is_permutation (ep ?s)
      \<and> get_permutation_parity (cp ?s) = Inr rc \<and> get_permutation_parity (ep ?s) = Inr rc
      \<and> even (inversions (cp ?s)) = even (inversions (ep ?s))"
    using g pc pe' rc re' signs by simp
  with swaps show ?thesis by blast
qed

theorem generated_parities_agree_witness:
  "valid_draws example_draws \<and> generate_state example_draws = Inr example_state
   \<and> get_permutation_parity (shuffled_cp example_draws) = Inr 0
   \<and> get_permutation_parity (shuffled_ep example_draws) = Inr 1
   \<and> get_permutation_parity (cp example_state) = Inr 0
   \<and> get_permutation_parity (ep example_state) = Inr 0"
proof -
  have c: "get_permutation_parity (shuffled_cp example_draws) = Inr 0"
    and e: "get_permutation_parity (shuffled_ep example_draws) = Inr 1"
    and c': "get_permutation_parity (cp example_state) = Inr 0"
    by code_simp+
  from generated_parities_agree [OF example_draws_valid] example_state_generated c'
  have "get_permutation_parity (ep example_state) = Inr 0" by auto
  with example_draws_valid example_state_generated c e c' show ?thesis by simp
qed

end
